theory Spec2Isabelle
  imports Main "HOL-Library.Word" "HOL-Library.Monad_Syntax"
begin

unbundle bit_operations_syntax

section \<open>Machine types, constants and byte buffers\<close>

text \<open>
  MiniVSFS consists of two C programs, \<^verbatim>\<open>mkfs_builder\<close> (format a fresh image) and
  \<^verbatim>\<open>mkfs_adder\<close> (add one host file to the root directory of an image). Both edit one
  byte buffer in place. The buffer is a list of bytes; every access is bounds-checked in the
  model, and an access outside the buffer (undefined behaviour in C) is the value \<open>None\<close>.
  Integers are machine words of the width the source declares; structs are packed and
  stored little-endian.
\<close>

type_synonym u8 = "8 word"
type_synonym u16 = "16 word"
type_synonym u32 = "32 word"
type_synonym u64 = "64 word"
type_synonym buffer = "u8 list"

abbreviation BS :: nat where "BS \<equiv> 4096"
abbreviation INODE_SIZE :: nat where "INODE_SIZE \<equiv> 128"
abbreviation ROOT_INO :: nat where "ROOT_INO \<equiv> 1"
abbreviation DIRECT_MAX :: nat where "DIRECT_MAX \<equiv> 12"
abbreviation MAX_FILENAME :: nat where "MAX_FILENAME \<equiv> 58"
abbreviation DIRENT_SIZE :: nat where "DIRENT_SIZE \<equiv> 64"
abbreviation SB_SIZE :: nat where "SB_SIZE \<equiv> 116"

text \<open>Little-endian storage of an integer field in \<open>n\<close> bytes, and reading it back.\<close>

definition le_bytes :: "nat \<Rightarrow> 'a::len word \<Rightarrow> u8 list" where
  "le_bytes n w = map (\<lambda>i. ucast (drop_bit (8 * i) w)) [0..<n]"

primrec le_word :: "u8 list \<Rightarrow> 'a::len word" where
  "le_word [] = 0"
| "le_word (b # bs) = ucast b OR push_bit 8 (le_word bs)"

text \<open>The bytes \<open>off ..< off + n\<close> of a struct image.\<close>

definition field :: "u8 list \<Rightarrow> nat \<Rightarrow> nat \<Rightarrow> u8 list" where
  "field bs off n = take n (drop off bs)"

subsection \<open>Memory access\<close>

text \<open>\<^verbatim>\<open>memcpy(img + off, src, n)\<close> into the buffer, and reading \<open>n\<close> bytes out of it.\<close>

definition memcpy :: "buffer \<Rightarrow> nat \<Rightarrow> u8 list \<Rightarrow> buffer option" where
  "memcpy img off src =
     (if off + length src \<le> length img
      then Some (take off img @ src @ drop (off + length src) img)
      else None)"

definition memset0 :: "buffer \<Rightarrow> nat \<Rightarrow> nat \<Rightarrow> buffer option" where
  "memset0 img off n = memcpy img off (replicate n 0)"

definition peek :: "buffer \<Rightarrow> nat \<Rightarrow> nat \<Rightarrow> u8 list option" where
  "peek img off n =
     (if off + n \<le> length img then Some (take n (drop off img)) else None)"

subsection \<open>Bitmap helpers\<close>

text \<open>
  \<open>bm\<close> is the offset of the bitmap in the buffer, \<open>idx\<close> the bit index:
  byte \<open>idx / 8\<close>, bit \<open>idx % 8\<close>.
\<close>

definition bit_get :: "buffer \<Rightarrow> nat \<Rightarrow> nat \<Rightarrow> bool option" where
  "bit_get img bm idx =
     (if bm + idx div 8 < length img
      then Some ((drop_bit (idx mod 8) (img ! (bm + idx div 8)) AND 1) \<noteq> 0)
      else None)"

definition bit_set :: "buffer \<Rightarrow> nat \<Rightarrow> nat \<Rightarrow> buffer option" where
  "bit_set img bm idx =
     (if bm + idx div 8 < length img
      then Some (img[bm + idx div 8 := (img ! (bm + idx div 8)) OR push_bit (idx mod 8) 1])
      else None)"

definition bit_clear :: "buffer \<Rightarrow> nat \<Rightarrow> nat \<Rightarrow> buffer option" where
  "bit_clear img bm idx =
     (if bm + idx div 8 < length img
      then Some (img[bm + idx div 8 := (img ! (bm + idx div 8)) AND NOT (push_bit (idx mod 8) 1)])
      else None)"

section \<open>On-disk structures\<close>

record superblock_t =
  magic :: u32
  version :: u32
  block_size :: u32
  total_blocks :: u64
  inode_count :: u64
  inode_bitmap_start :: u64
  inode_bitmap_blocks :: u64
  data_bitmap_start :: u64
  data_bitmap_blocks :: u64
  inode_table_start :: u64
  inode_table_blocks :: u64
  data_region_start :: u64
  data_region_blocks :: u64
  root_inode :: u64
  mtime_epoch :: u64
  flags :: u32
  checksum :: u32

record inode_t =
  mode :: u16
  links :: u16
  uid :: u32
  gid :: u32
  size_bytes :: u64
  atime :: u64
  mtime :: u64
  ctime :: u64
  direct :: "u32 list"
  reserved_0 :: u32
  reserved_1 :: u32
  reserved_2 :: u32
  proj_id :: u32
  uid16_gid16 :: u32
  xattr_ptr :: u64
  inode_crc :: u64

record dirent64_t =
  inode_no :: u32
  dtype :: u8
  name :: "u8 list"
  dchecksum :: u8

text \<open>The packed byte images of the three structs (116, 128 and 64 bytes).\<close>

definition superblock_bytes :: "superblock_t \<Rightarrow> u8 list" where
  "superblock_bytes sb =
     le_bytes 4 (magic sb) @ le_bytes 4 (version sb) @ le_bytes 4 (block_size sb) @
     le_bytes 8 (total_blocks sb) @ le_bytes 8 (inode_count sb) @
     le_bytes 8 (inode_bitmap_start sb) @ le_bytes 8 (inode_bitmap_blocks sb) @
     le_bytes 8 (data_bitmap_start sb) @ le_bytes 8 (data_bitmap_blocks sb) @
     le_bytes 8 (inode_table_start sb) @ le_bytes 8 (inode_table_blocks sb) @
     le_bytes 8 (data_region_start sb) @ le_bytes 8 (data_region_blocks sb) @
     le_bytes 8 (root_inode sb) @ le_bytes 8 (mtime_epoch sb) @
     le_bytes 4 (flags sb) @ le_bytes 4 (checksum sb)"

definition superblock_of_bytes :: "u8 list \<Rightarrow> superblock_t" where
  "superblock_of_bytes bs =
     \<lparr> magic = le_word (field bs 0 4), version = le_word (field bs 4 4),
       block_size = le_word (field bs 8 4), total_blocks = le_word (field bs 12 8),
       inode_count = le_word (field bs 20 8),
       inode_bitmap_start = le_word (field bs 28 8),
       inode_bitmap_blocks = le_word (field bs 36 8),
       data_bitmap_start = le_word (field bs 44 8),
       data_bitmap_blocks = le_word (field bs 52 8),
       inode_table_start = le_word (field bs 60 8),
       inode_table_blocks = le_word (field bs 68 8),
       data_region_start = le_word (field bs 76 8),
       data_region_blocks = le_word (field bs 84 8),
       root_inode = le_word (field bs 92 8), mtime_epoch = le_word (field bs 100 8),
       flags = le_word (field bs 108 4), checksum = le_word (field bs 112 4) \<rparr>"

text \<open>The twelve direct pointers of an inode record (48 bytes).\<close>

definition direct_bytes :: "u32 list \<Rightarrow> u8 list" where
  "direct_bytes ds = concat (map (le_bytes 4) (take DIRECT_MAX (ds @ replicate DIRECT_MAX 0)))"

definition inode_bytes :: "inode_t \<Rightarrow> u8 list" where
  "inode_bytes ino =
     le_bytes 2 (mode ino) @ le_bytes 2 (links ino) @ le_bytes 4 (uid ino) @
     le_bytes 4 (gid ino) @ le_bytes 8 (size_bytes ino) @ le_bytes 8 (atime ino) @
     le_bytes 8 (mtime ino) @ le_bytes 8 (ctime ino) @
     direct_bytes (direct ino) @
     le_bytes 4 (reserved_0 ino) @ le_bytes 4 (reserved_1 ino) @
     le_bytes 4 (reserved_2 ino) @ le_bytes 4 (proj_id ino) @
     le_bytes 4 (uid16_gid16 ino) @ le_bytes 8 (xattr_ptr ino) @
     le_bytes 8 (inode_crc ino)"

definition inode_of_bytes :: "u8 list \<Rightarrow> inode_t" where
  "inode_of_bytes bs =
     \<lparr> mode = le_word (field bs 0 2), links = le_word (field bs 2 2),
       uid = le_word (field bs 4 4), gid = le_word (field bs 8 4),
       size_bytes = le_word (field bs 12 8), atime = le_word (field bs 20 8),
       mtime = le_word (field bs 28 8), ctime = le_word (field bs 36 8),
       direct = map (\<lambda>k. le_word (field bs (44 + 4 * k) 4)) [0..<DIRECT_MAX],
       reserved_0 = le_word (field bs 92 4), reserved_1 = le_word (field bs 96 4),
       reserved_2 = le_word (field bs 100 4), proj_id = le_word (field bs 104 4),
       uid16_gid16 = le_word (field bs 108 4), xattr_ptr = le_word (field bs 112 8),
       inode_crc = le_word (field bs 120 8) \<rparr>"

definition dirent_bytes :: "dirent64_t \<Rightarrow> u8 list" where
  "dirent_bytes de =
     le_bytes 4 (inode_no de) @ [dtype de] @
     take MAX_FILENAME (name de @ replicate MAX_FILENAME 0) @ [dchecksum de]"

definition dirent_of_bytes :: "u8 list \<Rightarrow> dirent64_t" where
  "dirent_of_bytes bs =
     \<lparr> inode_no = le_word (field bs 0 4), dtype = bs ! 4,
       name = field bs 5 MAX_FILENAME, dchecksum = bs ! 63 \<rparr>"

text \<open>\<^verbatim>\<open>memset(&x, 0, sizeof(x))\<close> for the two structs built field by field.\<close>

definition zero_inode :: inode_t where
  "zero_inode =
     \<lparr> mode = 0, links = 0, uid = 0, gid = 0, size_bytes = 0, atime = 0, mtime = 0,
       ctime = 0, direct = replicate DIRECT_MAX 0, reserved_0 = 0, reserved_1 = 0,
       reserved_2 = 0, proj_id = 0, uid16_gid16 = 0, xattr_ptr = 0, inode_crc = 0 \<rparr>"

definition zero_dirent :: dirent64_t where
  "zero_dirent = \<lparr> inode_no = 0, dtype = 0, name = replicate MAX_FILENAME 0, dchecksum = 0 \<rparr>"

section \<open>Checksum helpers\<close>

text \<open>One bit of the reflected CRC-32 shift register (the inner loop of \<^verbatim>\<open>crc32_init\<close>).\<close>

definition crc_bit :: "u32 \<Rightarrow> u32" where
  "crc_bit c = (if c AND 1 \<noteq> 0 then 0xEDB88320 XOR drop_bit 1 c else drop_bit 1 c)"

definition crc32_tab_entry :: "u32 \<Rightarrow> u32" where
  "crc32_tab_entry i = (crc_bit ^^ 8) i"

definition CRC32_TAB :: "u32 list" where
  "CRC32_TAB = map (\<lambda>i. crc32_tab_entry (of_nat i)) [0..<256]"

primrec crc32_loop :: "u32 \<Rightarrow> u8 list \<Rightarrow> u32" where
  "crc32_loop c [] = c"
| "crc32_loop c (b # bs) =
     crc32_loop ((CRC32_TAB ! unat ((c XOR ucast b) AND 0xFF)) XOR drop_bit 8 c) bs"

text \<open>\<^verbatim>\<open>crc32(data, n)\<close> is \<open>crc32 (take n data)\<close>.\<close>

definition crc32 :: "u8 list \<Rightarrow> u32" where
  "crc32 data = crc32_loop 0xFFFFFFFF data XOR 0xFFFFFFFF"

definition superblock_crc_finalize :: "superblock_t \<Rightarrow> superblock_t" where
  "superblock_crc_finalize sb =
     (let sb0 = sb\<lparr>checksum := 0\<rparr>;
          block = superblock_bytes sb0 @ replicate (BS - SB_SIZE) 0;
          s = crc32 (take (BS - 4) block)
      in sb0\<lparr>checksum := s\<rparr>)"

definition inode_crc_finalize :: "inode_t \<Rightarrow> inode_t" where
  "inode_crc_finalize ino =
     (let tmp = inode_bytes ino;
          tmp' = take 120 tmp @ replicate 8 0;
          c = crc32 (take 120 tmp')
      in ino\<lparr>inode_crc := ucast c\<rparr>)"

definition dirent_checksum_finalize :: "dirent64_t \<Rightarrow> dirent64_t" where
  "dirent_checksum_finalize de =
     de\<lparr>dchecksum := fold (\<lambda>b x. x XOR b) (take 63 (dirent_bytes de)) 0\<rparr>"

section \<open>Errors\<close>

datatype error =
    InvalidSize | InvalidInodes | ImageTooSmall | CapacityError
  | BadMagic | FileTooLarge | NoFreeInode | NoFreeBlocks
  | CorruptRootPointer | NoFreeDirEntry


section \<open>The formatter (\<^verbatim>\<open>mkfs_builder\<close>)\<close>

text \<open>
  \<^verbatim>\<open>strncpy(dst, src, n)\<close> for a C string \<open>src\<close> (given without its terminator): the first
  \<open>n\<close> bytes of \<open>dst\<close> become \<open>src\<close>, cut to \<open>n\<close> bytes or padded with zero bytes.
\<close>

definition strncpy :: "u8 list \<Rightarrow> u8 list \<Rightarrow> nat \<Rightarrow> u8 list" where
  "strncpy dst src n = take n (src @ replicate n 0) @ drop n dst"

definition cstring :: "string \<Rightarrow> u8 list" where
  "cstring s = map of_char s"

text \<open>The layout computation: inode table blocks, data region start, data region blocks.\<close>

definition layout :: "u64 \<Rightarrow> u64 \<Rightarrow> error + (u64 \<times> u64 \<times> u64)" where
  "layout total_blks inode_cnt =
     (let inode_tbl_bytes = inode_cnt * 128;
          inode_tbl_blocks = (inode_tbl_bytes + 4096 - 1) div 4096;
          inode_table_st = 3 :: u64;
          data_region_st = inode_table_st + inode_tbl_blocks
      in if data_region_st \<ge> total_blks then Inl CapacityError
         else Inr (inode_tbl_blocks, data_region_st, total_blks - data_region_st))"

definition root_dir_inode :: "u64 \<Rightarrow> inode_t" where
  "root_dir_inode now =
     inode_crc_finalize
       (zero_inode\<lparr> mode := 0x4000, links := 2, uid := 0, gid := 0,
                    size_bytes := 2 * 64, atime := now, mtime := now, ctime := now,
                    direct := (direct zero_inode)[0 := 0] \<rparr>)"

definition dot_entry :: "string \<Rightarrow> dirent64_t" where
  "dot_entry s =
     dirent_checksum_finalize
       (zero_dirent\<lparr> inode_no := 1, dtype := 2,
                     name := strncpy (name zero_dirent) (cstring s) (MAX_FILENAME - 1) \<rparr>)"

definition new_superblock :: "u64 \<Rightarrow> u64 \<Rightarrow> u64 \<Rightarrow> u64 \<Rightarrow> u64 \<Rightarrow> u64 \<Rightarrow> superblock_t" where
  "new_superblock total_blks inode_cnt inode_tbl_blocks data_region_st data_region_blks now =
     superblock_crc_finalize
       \<lparr> magic = 0x4D565346, version = 1, block_size = 4096, total_blocks = total_blks,
         inode_count = inode_cnt, inode_bitmap_start = 1, inode_bitmap_blocks = 1,
         data_bitmap_start = 2, data_bitmap_blocks = 1, inode_table_start = 3,
         inode_table_blocks = inode_tbl_blocks, data_region_start = data_region_st,
         data_region_blocks = data_region_blks, root_inode = 1, mtime_epoch = now,
         flags = 0, checksum = 0 \<rparr>"

text \<open>
  The body of the builder from the layout computation on. \<open>now\<close> and \<open>now'\<close> are the two
  readings of the clock (superblock, root inode).
\<close>

definition format :: "u64 \<Rightarrow> u64 \<Rightarrow> u64 \<Rightarrow> u64 \<Rightarrow> (error + buffer) option" where
  "format total_blks inode_cnt now now' =
     (case layout total_blks inode_cnt of
        Inl e \<Rightarrow> Some (Inl e)
      | Inr (inode_tbl_blocks, data_region_st, data_region_blks) \<Rightarrow>
          do {
            let img0 = replicate (unat (total_blks * 4096)) (0 :: u8);
            let sb = new_superblock total_blks inode_cnt inode_tbl_blocks
                       data_region_st data_region_blks now;
            img1 \<leftarrow> memcpy img0 0 (superblock_bytes sb);
            let inode_bm = unat (1 * 4096 :: u64);
            let data_bm = unat (2 * 4096 :: u64);
            img2 \<leftarrow> memset0 img1 inode_bm BS;
            img3 \<leftarrow> memset0 img2 data_bm BS;
            img4 \<leftarrow> bit_set img3 inode_bm 0;
            img5 \<leftarrow> bit_set img4 data_bm 0;
            let inode_tbl = unat (3 * 4096 :: u64);
            img6 \<leftarrow> memset0 img5 inode_tbl (unat (inode_tbl_blocks * 4096));
            img7 \<leftarrow> memcpy img6 (inode_tbl + 0 * INODE_SIZE) (inode_bytes (root_dir_inode now'));
            let data_region = unat (data_region_st * 4096);
            img8 \<leftarrow> memset0 img7 (data_region + 0 * BS) BS;
            img9 \<leftarrow> memcpy img8 (data_region + 0 * BS + 0 * DIRENT_SIZE)
                     (dirent_bytes (dot_entry ''.''));
            img10 \<leftarrow> memcpy img9 (data_region + 0 * BS + 1 * DIRENT_SIZE)
                      (dirent_bytes (dot_entry ''..''));
            Some (Inr img10)
          })"

text \<open>The builder with the validation of its two command-line numbers in front.\<close>

definition mkfs_builder :: "u64 \<Rightarrow> u64 \<Rightarrow> u64 \<Rightarrow> u64 \<Rightarrow> (error + buffer) option" where
  "mkfs_builder size_kib inode_cnt now now' =
     (if size_kib < 180 \<or> size_kib > 4096 \<or> size_kib mod 4 \<noteq> 0 then Some (Inl InvalidSize)
      else if inode_cnt < 128 \<or> inode_cnt > 512 then Some (Inl InvalidInodes)
      else let total_blks = (size_kib * 1024) div 4096
           in if total_blks < 8 then Some (Inl ImageTooSmall)
              else format total_blks inode_cnt now now')"

section \<open>The adder (\<^verbatim>\<open>mkfs_adder\<close>)\<close>

text \<open>Region pointers, computed from the superblock read out of the image.\<close>

definition inode_bm_off :: "superblock_t \<Rightarrow> nat" where
  "inode_bm_off sb = unat (inode_bitmap_start sb * 4096)"

definition data_bm_off :: "superblock_t \<Rightarrow> nat" where
  "data_bm_off sb = unat (data_bitmap_start sb * 4096)"

definition inode_tbl_off :: "superblock_t \<Rightarrow> nat" where
  "inode_tbl_off sb = unat (inode_table_start sb * 4096)"

definition data_region_off :: "superblock_t \<Rightarrow> nat" where
  "data_region_off sb = unat (data_region_start sb * 4096)"

definition need_blocks_of :: "u64 \<Rightarrow> u64" where
  "need_blocks_of file_size =
     (let need_blocks = (file_size + 4096 - 1) div 4096
      in if need_blocks = 0 then 1 else need_blocks)"

text \<open>
  The scan for a free inode. The result is the C \<^verbatim>\<open>int found_inode\<close>: \<open>-1\<close> when the loop
  ends without a hit, the loop index cut to 32 bits otherwise.
\<close>

function find_free_inode :: "buffer \<Rightarrow> nat \<Rightarrow> u64 \<Rightarrow> u64 \<Rightarrow> 32 word option" where
  "find_free_inode img inode_bm n i =
     (if i < n then
        (case bit_get img inode_bm (unat i) of
           None \<Rightarrow> None
         | Some b \<Rightarrow>
             if \<not> b then Some (ucast i) else find_free_inode img inode_bm n (i + 1))
      else Some (- 1))"
  by pat_completeness auto
termination
  by (relation "measure (\<lambda>(img, inode_bm, n, i). unat n - unat i)")
     (simp, simp, unat_arith)

text \<open>The scan for free data blocks; \<open>found\<close> is \<^verbatim>\<open>blocks_found[0..found)\<close>.\<close>

function find_free_blocks ::
  "buffer \<Rightarrow> nat \<Rightarrow> u64 \<Rightarrow> u64 \<Rightarrow> u64 \<Rightarrow> u32 list \<Rightarrow> u32 list option" where
  "find_free_blocks img data_bm n need i found =
     (if i < n \<and> (of_nat (length found) :: u64) < need then
        (case bit_get img data_bm (unat i) of
           None \<Rightarrow> None
         | Some b \<Rightarrow>
             find_free_blocks img data_bm n need (i + 1)
               (if \<not> b then found @ [ucast i] else found))
      else Some found)"
  by pat_completeness auto
termination
  by (relation "measure (\<lambda>(img, data_bm, n, need, i, found). unat n - unat i)")
     (simp, simp, unat_arith)

text \<open>
  The read-only first part of the adder: size check, superblock, capacity check and the
  two scans. It yields the superblock, \<^verbatim>\<open>found_inode\<close> and \<^verbatim>\<open>blocks_found\<close>.
\<close>

definition adder_plan ::
  "buffer \<Rightarrow> u8 list \<Rightarrow> (error + (superblock_t \<times> 32 word \<times> u32 list)) option" where
  "adder_plan img file_buf =
     (if length img < BS then Some (Inl ImageTooSmall)
      else
        let sb = superblock_of_bytes (take SB_SIZE img) in
        if magic sb \<noteq> 0x4D565346 then Some (Inl BadMagic)
        else
          let file_size = (of_nat (length file_buf) :: u64);
              need_blocks = need_blocks_of file_size
          in if need_blocks > 12 then Some (Inl FileTooLarge)
             else do {
               found_inode \<leftarrow> find_free_inode img (inode_bm_off sb) (inode_count sb) 0;
               if found_inode <s 0 then Some (Inl NoFreeInode)
               else do {
                 blocks_found \<leftarrow>
                   find_free_blocks img (data_bm_off sb) (data_region_blocks sb) need_blocks 0 [];
                 if (of_nat (length blocks_found) :: u64) < need_blocks
                 then Some (Inl NoFreeBlocks)
                 else Some (Inr (sb, found_inode, blocks_found))
               }
             })"

text \<open>The new file's inode.\<close>

definition file_inode :: "u64 \<Rightarrow> u64 \<Rightarrow> u32 list \<Rightarrow> inode_t" where
  "file_inode file_size now blocks_found =
     inode_crc_finalize
       (zero_inode\<lparr> mode := 0x8000, links := 1, uid := 0, gid := 0,
                    size_bytes := file_size, atime := now, mtime := now, ctime := now,
                    direct := blocks_found @ drop (length blocks_found) (direct zero_inode) \<rparr>)"

text \<open>Marking the data blocks and copying the file into them, block \<open>i\<close> onwards.\<close>

fun write_blocks ::
  "buffer \<Rightarrow> nat \<Rightarrow> nat \<Rightarrow> u8 list \<Rightarrow> nat \<Rightarrow> u32 list \<Rightarrow> buffer option" where
  "write_blocks img data_bm data_region file_buf i [] = Some img"
| "write_blocks img data_bm data_region file_buf i (b # bs) =
     do {
       img1 \<leftarrow> bit_set img data_bm (unat b);
       let copy_off = i * BS;
       let remain = (if length file_buf > copy_off then length file_buf - copy_off else 0);
       let tocopy = (if remain > BS then BS else remain);
       img2 \<leftarrow> (if tocopy \<noteq> 0
                then memcpy img1 (data_region + unat b * BS) (take tocopy (drop copy_off file_buf))
                else Some img1);
       img3 \<leftarrow> (if tocopy < BS
                then memset0 img2 (data_region + unat b * BS + tocopy) (BS - tocopy)
                else Some img2);
       write_blocks img3 data_bm data_region file_buf (i + 1) bs
     }"

definition adder_alloc ::
  "buffer \<Rightarrow> superblock_t \<Rightarrow> 32 word \<Rightarrow> u32 list \<Rightarrow> u8 list \<Rightarrow> u64 \<Rightarrow> buffer option" where
  "adder_alloc img sb found_inode blocks_found file_buf now =
     do {
       let ino = file_inode (of_nat (length file_buf)) now blocks_found;
       let fi = unat (scast found_inode :: u64);
       img1 \<leftarrow> bit_set img (inode_bm_off sb) fi;
       img2 \<leftarrow> write_blocks img1 (data_bm_off sb) (data_region_off sb) file_buf 0 blocks_found;
       memcpy img2 (inode_tbl_off sb + fi * INODE_SIZE) (inode_bytes ino)
     }"

text \<open>The base name of the host path and the new directory entry.\<close>

definition basename :: "string \<Rightarrow> string" where
  "basename host_file =
     (if CHR ''/'' \<in> set host_file
      then rev (takeWhile (\<lambda>c. c \<noteq> CHR ''/'') (rev host_file))
      else host_file)"

definition new_dirent :: "u32 \<Rightarrow> string \<Rightarrow> dirent64_t" where
  "new_dirent new_ino host_file =
     dirent_checksum_finalize
       (zero_dirent\<lparr> inode_no := new_ino, dtype := 1,
                     name := strncpy (name zero_dirent) (cstring (basename host_file))
                               (MAX_FILENAME - 1) \<rparr>)"

text \<open>
  The scan of the root directory block from offset \<open>off\<close>: \<open>Some (Some img')\<close> when the
  entry was written, \<open>Some None\<close> when no slot is free.
\<close>

function insert_dirent :: "buffer \<Rightarrow> nat \<Rightarrow> u8 list \<Rightarrow> nat \<Rightarrow> buffer option option" where
  "insert_dirent img root_block nde off =
     (if off + DIRENT_SIZE \<le> BS then
        (case peek img (root_block + off) 4 of
           None \<Rightarrow> None
         | Some bs \<Rightarrow>
             if (le_word bs :: u32) = 0
             then map_option Some (memcpy img (root_block + off) nde)
             else insert_dirent img root_block nde (off + DIRENT_SIZE))
      else Some None)"
  by pat_completeness auto
termination
  by (relation "measure (\<lambda>(img, root_block, nde, off). BS - off)") auto

fun clear_blocks :: "buffer \<Rightarrow> nat \<Rightarrow> u32 list \<Rightarrow> buffer option" where
  "clear_blocks img data_bm [] = Some img"
| "clear_blocks img data_bm (b # bs) =
     do { img1 \<leftarrow> bit_clear img data_bm (unat b); clear_blocks img1 data_bm bs }"

text \<open>The rollback when the root directory has no free slot.\<close>

definition adder_rollback :: "buffer \<Rightarrow> superblock_t \<Rightarrow> nat \<Rightarrow> u32 list \<Rightarrow> buffer option" where
  "adder_rollback img sb fi blocks_found =
     do {
       img1 \<leftarrow> bit_clear img (inode_bm_off sb) fi;
       clear_blocks img1 (data_bm_off sb) blocks_found
     }"

text \<open>Updating the root inode and the superblock.\<close>

definition bump_root :: "inode_t \<Rightarrow> inode_t" where
  "bump_root root_ino =
     inode_crc_finalize
       (root_ino\<lparr> links := links root_ino + 1, size_bytes := size_bytes root_ino + 64 \<rparr>)"

definition adder_commit :: "buffer \<Rightarrow> superblock_t \<Rightarrow> inode_t \<Rightarrow> u64 \<Rightarrow> buffer option" where
  "adder_commit img sb root_ino now' =
     do {
       img1 \<leftarrow> memcpy img (inode_tbl_off sb + (ROOT_INO - 1) * INODE_SIZE)
                (inode_bytes (bump_root root_ino));
       let sb' = superblock_crc_finalize (sb\<lparr> mtime_epoch := now' \<rparr>);
       memcpy img1 0 (superblock_bytes sb')
     }"

text \<open>
  The second half of the adder, on the buffer left by the allocation: the root inode is
  read, its first pointer checked, the entry inserted, and root inode and superblock
  rewritten. A failure carries the buffer as it is when the program gives up.
\<close>

definition adder_link ::
  "buffer \<Rightarrow> superblock_t \<Rightarrow> 32 word \<Rightarrow> u32 list \<Rightarrow> string \<Rightarrow> u64 \<Rightarrow>
   ((error \<times> buffer) + buffer) option" where
  "adder_link img sb found_inode blocks_found host_file now' =
     do {
       let new_ino = (found_inode + 1 :: u32);
       let fi = unat (scast found_inode :: u64);
       root_bytes \<leftarrow> peek img (inode_tbl_off sb + (ROOT_INO - 1) * INODE_SIZE) INODE_SIZE;
       let root_ino = inode_of_bytes root_bytes;
       let root_rel = direct root_ino ! 0;
       if (ucast root_rel :: u64) \<ge> data_region_blocks sb
       then Some (Inl (CorruptRootPointer, img))
       else do {
         let root_block = data_region_off sb + unat root_rel * BS;
         added \<leftarrow> insert_dirent img root_block (dirent_bytes (new_dirent new_ino host_file)) 0;
         case added of
           None \<Rightarrow>
             do {
               img' \<leftarrow> adder_rollback img sb fi blocks_found;
               Some (Inl (NoFreeDirEntry, img'))
             }
         | Some img4 \<Rightarrow>
             do {
               img' \<leftarrow> adder_commit img4 sb root_ino now';
               Some (Inr img')
             }
       }
     }"

text \<open>
  The whole adder on the image buffer: \<open>Some (Inr img')\<close> is the image written to the
  output file, \<open>Some (Inl (e, buf))\<close> a failure \<open>e\<close> with the buffer \<open>buf\<close> as it is when the
  program gives up (nothing is written then), \<open>None\<close> an access outside the buffer.
\<close>

definition add_file ::
  "buffer \<Rightarrow> string \<Rightarrow> u8 list \<Rightarrow> u64 \<Rightarrow> u64 \<Rightarrow> ((error \<times> buffer) + buffer) option" where
  "add_file img host_file file_buf now now' =
     do {
       plan \<leftarrow> adder_plan img file_buf;
       case plan of
         Inl e \<Rightarrow> Some (Inl (e, img))
       | Inr (sb, found_inode, blocks_found) \<Rightarrow>
           do {
             img3 \<leftarrow> adder_alloc img sb found_inode blocks_found file_buf now;
             adder_link img3 sb found_inode blocks_found host_file now'
           }
     }"

section \<open>Notions used in the statements\<close>

text \<open>
  The arithmetic of the formatter does not wrap around: the inode table size and the image
  size fit 64 bits. The builder's own validation (180..4096 KiB, 128..512 inodes) implies it.
\<close>

definition fits :: "u64 \<Rightarrow> u64 \<Rightarrow> bool" where
  "fits total_blks inode_cnt \<longleftrightarrow>
     unat inode_cnt * 128 + 4095 < 2 ^ 64 \<and> unat total_blks * 4096 < 2 ^ 64"

text \<open>
  Byte \<open>a\<close> of a freshly formatted image whose data region starts at byte \<open>D\<close>, given the
  superblock and the root inode written into it. Later writes of the builder come first.
\<close>

definition fresh_byte :: "superblock_t \<Rightarrow> inode_t \<Rightarrow> nat \<Rightarrow> nat \<Rightarrow> u8" where
  "fresh_byte sb root D a =
     (if D + 64 \<le> a \<and> a < D + 128 then dirent_bytes (dot_entry ''..'') ! (a - (D + 64))
      else if D \<le> a \<and> a < D + 64 then dirent_bytes (dot_entry ''.'') ! (a - D)
      else if D \<le> a \<and> a < D + BS then 0
      else if 3 * BS \<le> a \<and> a < 3 * BS + INODE_SIZE then inode_bytes root ! (a - 3 * BS)
      else if a = BS \<or> a = 2 * BS then 1
      else if a < SB_SIZE then superblock_bytes sb ! a
      else 0)"

text \<open>Rounding a quotient up, as in \<open>ceil(inode_count \<times> 128 / 4096)\<close>.\<close>

definition ceil_div :: "nat \<Rightarrow> nat \<Rightarrow> nat" where
  "ceil_div a b = (a + b - 1) div b"

text \<open>
  \<open>frame img img' S\<close>: the buffers have the same size and every bit (byte address, bit
  number) in which they differ lies in \<open>S\<close>.
\<close>

definition frame :: "buffer \<Rightarrow> buffer \<Rightarrow> (nat \<times> nat) set \<Rightarrow> bool" where
  "frame img img' S \<longleftrightarrow>
     length img' = length img \<and>
     (\<forall>a k. a < length img \<and> bit (img' ! a) k \<noteq> bit (img ! a) k \<longrightarrow> (a, k) \<in> S)"

text \<open>All bits of the bytes \<open>off ..< off + n\<close>.\<close>

definition bytes_at :: "nat \<Rightarrow> nat \<Rightarrow> (nat \<times> nat) set" where
  "bytes_at off n = {off ..< off + n} \<times> UNIV"

text \<open>Bit \<open>idx\<close> of the bitmap at offset \<open>bm\<close>.\<close>

definition bit_at :: "nat \<Rightarrow> nat \<Rightarrow> nat \<times> nat" where
  "bit_at bm idx = (bm + idx div 8, idx mod 8)"

text \<open>The bits the allocation loop may change: bitmap bits and data blocks of \<open>bs\<close>.\<close>

definition blocks_touched :: "nat \<Rightarrow> nat \<Rightarrow> u32 list \<Rightarrow> (nat \<times> nat) set" where
  "blocks_touched data_bm data_region bs =
     (\<lambda>b. bit_at data_bm (unat b)) ` set bs \<union>
     (\<Union>b \<in> set bs. bytes_at (data_region + unat b * BS) BS)"

text \<open>
  The bits a successful run of the adder may change, for the superblock \<open>sb\<close> of the input
  image, the chosen inode index \<open>fi\<close>, the chosen data blocks \<open>bf\<close>, the root directory
  block \<open>root_rel\<close> and the directory slot \<open>slot\<close>: the inode's bitmap bit, the blocks' bitmap
  bits, the inode's table slot, the blocks, the directory slot, the root inode's table slot,
  and the superblock fields \<open>mtime_epoch\<close> (bytes 100..107) and \<open>checksum\<close> (112..115).
\<close>

definition touched :: "superblock_t \<Rightarrow> nat \<Rightarrow> u32 list \<Rightarrow> nat \<Rightarrow> nat \<Rightarrow> (nat \<times> nat) set" where
  "touched sb fi bf root_rel slot =
     {bit_at (inode_bm_off sb) fi} \<union>
     (\<lambda>b. bit_at (data_bm_off sb) (unat b)) ` set bf \<union>
     bytes_at (inode_tbl_off sb + fi * INODE_SIZE) INODE_SIZE \<union>
     (\<Union>b \<in> set bf. bytes_at (data_region_off sb + unat b * BS) BS) \<union>
     bytes_at (data_region_off sb + root_rel * BS + DIRENT_SIZE * slot) DIRENT_SIZE \<union>
     bytes_at (inode_tbl_off sb) INODE_SIZE \<union>
     bytes_at 100 8 \<union> bytes_at 112 4"

text \<open>
  The layout the formatter writes, read back from a superblock: bitmaps in blocks 1 and 2,
  the inode table from block 3 with room for \<open>inode_count\<close> records, the data region right
  behind it, each bitmap large enough for its region, and all regions inside a buffer of
  \<open>len\<close> bytes.
\<close>

definition geometry :: "superblock_t \<Rightarrow> nat \<Rightarrow> bool" where
  "geometry sb len \<longleftrightarrow>
     inode_bitmap_start sb = 1 \<and> data_bitmap_start sb = 2 \<and> inode_table_start sb = 3 \<and>
     unat (data_region_start sb) = 3 + unat (inode_table_blocks sb) \<and>
     unat (inode_count sb) * INODE_SIZE \<le> unat (inode_table_blocks sb) * BS \<and>
     unat (inode_count sb) \<le> 8 * BS \<and> unat (data_region_blocks sb) \<le> 8 * BS \<and>
     (unat (data_region_start sb) + unat (data_region_blocks sb)) * BS \<le> len \<and>
     len < 2 ^ 64"

text \<open>The superblock and the inode records of an image.\<close>

definition image_sb :: "buffer \<Rightarrow> superblock_t" where
  "image_sb img = superblock_of_bytes (take SB_SIZE img)"

definition inode_at :: "buffer \<Rightarrow> nat \<Rightarrow> inode_t" where
  "inode_at img j = inode_of_bytes (take INODE_SIZE (drop (3 * BS + j * INODE_SIZE) img))"

text \<open>The inode number stored in slot \<open>s\<close> of the directory block \<open>rel\<close> of the data region.\<close>

definition slot_ino :: "buffer \<Rightarrow> nat \<Rightarrow> nat \<Rightarrow> u32" where
  "slot_ino img rel s =
     le_word (take 4 (drop (data_region_off (image_sb img) + rel * BS + DIRENT_SIZE * s) img))"

text \<open>
  An image with a sound layout: at least one block, the magic tag, the layout above, and
  the root inode (bit 0 of the inode bitmap) allocated.
\<close>

definition sane_image :: "buffer \<Rightarrow> bool" where
  "sane_image img \<longleftrightarrow>
     BS \<le> length img \<and> magic (image_sb img) = 0x4D565346 \<and>
     geometry (image_sb img) (length img) \<and>
     bit_get img BS 0 = Some True"

text \<open>
  A valid image: a sound layout, and the root inode's first direct pointer is a data block
  of the data region that is allocated.
\<close>

definition valid_image :: "buffer \<Rightarrow> bool" where
  "valid_image img \<longleftrightarrow>
     sane_image img \<and>
     unat (direct (inode_at img 0) ! 0) < unat (data_region_blocks (image_sb img)) \<and>
     bit_get img (2 * BS) (unat (direct (inode_at img 0) ! 0)) = Some True"

text \<open>The validation the builder applies to its two command-line numbers.\<close>

definition builder_valid :: "u64 \<Rightarrow> u64 \<Rightarrow> bool" where
  "builder_valid size_kib inode_cnt \<longleftrightarrow>
     180 \<le> size_kib \<and> size_kib \<le> 4096 \<and> size_kib mod 4 = 0 \<and>
     128 \<le> inode_cnt \<and> inode_cnt \<le> 512"

text \<open>The directory entry in slot \<open>s\<close> of the directory block \<open>rel\<close> of the data region.\<close>

definition dirent_at :: "buffer \<Rightarrow> nat \<Rightarrow> nat \<Rightarrow> dirent64_t" where
  "dirent_at img rel s =
     dirent_of_bytes
       (take DIRENT_SIZE (drop (data_region_off (image_sb img) + rel * BS + DIRENT_SIZE * s) img))"

text \<open>The one-byte checksum of a directory entry: the XOR of its first 63 bytes.\<close>

definition xor_sum :: "u8 list \<Rightarrow> u8" where
  "xor_sum bs = fold (\<lambda>b x. x XOR b) bs 0"

text \<open>The indices below \<open>n\<close> whose bit in the bitmap at \<open>bm\<close> is clear, in ascending order.\<close>

definition free_list :: "buffer \<Rightarrow> nat \<Rightarrow> nat \<Rightarrow> nat list" where
  "free_list img bm n = filter (\<lambda>j. bit_get img bm j = Some False) [0..<n]"

section \<open>Little-endian fields and struct images\<close>

lemma length_le_bytes [simp]: "length (le_bytes n w) = n"
  by (simp add: le_bytes_def)

lemma nth_le_bytes: "i < n \<Longrightarrow> le_bytes n w ! i = ucast (drop_bit (8 * i) w)"
  by (simp add: le_bytes_def)

lemma bit_le_word:
  "bit (le_word bs :: 'a::len word) k \<longleftrightarrow>
     k < LENGTH('a) \<and> k div 8 < length bs \<and> bit (bs ! (k div 8)) (k mod 8)"
proof (induction bs arbitrary: k)
  case Nil
  show ?case by simp
next
  case (Cons b bs)
  show ?case
  proof (cases "k < 8")
    case True
    then show ?thesis
      by (auto simp: bit_simps Cons.IH dest: bit_imp_le_length)
  next
    case False
    then have k: "k = 8 + (k - 8)" by simp
    have d: "k div 8 = Suc ((k - 8) div 8)" and m: "k mod 8 = (k - 8) mod 8"
      using False by (simp_all add: le_div_geq le_mod_geq)
    from False show ?thesis
      by (auto simp: bit_simps Cons.IH d m dest: bit_imp_le_length)
  qed
qed

lemma le_word_le_bytes:
  "LENGTH('a::len) \<le> 8 * n \<Longrightarrow> le_word (le_bytes n (w :: 'a word)) = w"
  apply (rule bit_word_eqI)
  apply (auto simp: bit_le_word nth_le_bytes bit_simps less_mult_imp_div_less mult.commute)
  done

lemma le_bytes_le_word:
  assumes "length bs = n" "8 * n \<le> LENGTH('a::len)"
  shows "le_bytes n (le_word bs :: 'a word) = bs"
proof (rule nth_equalityI)
  show "length (le_bytes n (le_word bs :: 'a word)) = length bs" using assms by simp
next
  fix i assume "i < length (le_bytes n (le_word bs :: 'a word))"
  then have i: "i < n" by simp
  show "le_bytes n (le_word bs :: 'a word) ! i = bs ! i"
    apply (rule bit_word_eqI)
    using i assms
    apply (auto simp: nth_le_bytes bit_simps bit_le_word)
    done
qed

lemma field_append_left:
  "off + n \<le> length xs \<Longrightarrow> field (xs @ ys) off n = field xs off n"
  by (simp add: field_def)

lemma field_append_right:
  "length xs \<le> off \<Longrightarrow> field (xs @ ys) off n = field ys (off - length xs) n"
  by (simp add: field_def)

lemma field_whole: "n = length xs \<Longrightarrow> field xs 0 n = xs"
  by (simp add: field_def)

lemma field_whole_append: "n = length xs \<Longrightarrow> field (xs @ ys) 0 n = xs"
  by (simp add: field_def)

lemma length_field: "off + n \<le> length bs \<Longrightarrow> length (field bs off n) = n"
  by (simp add: field_def)

lemma field_field_append:
  "k = off + n \<Longrightarrow> field bs off n @ field bs k m = field bs off (n + m)"
  unfolding field_def by (simp add: take_add add.commute [of off n])

lemma length_superblock_bytes [simp]: "length (superblock_bytes sb) = SB_SIZE"
  by (simp add: superblock_bytes_def)

lemma superblock_of_bytes_inverse: "superblock_of_bytes (superblock_bytes sb) = sb"
  by (simp add: superblock_of_bytes_def superblock_bytes_def field_append_right
      field_whole_append field_whole le_word_le_bytes)

lemma superblock_bytes_inverse:
  assumes "length bs = SB_SIZE"
  shows "superblock_bytes (superblock_of_bytes bs) = bs"
proof -
  have "superblock_bytes (superblock_of_bytes bs) =
        field bs 0 4 @ field bs 4 4 @ field bs 8 4 @ field bs 12 8 @ field bs 20 8 @
        field bs 28 8 @ field bs 36 8 @ field bs 44 8 @ field bs 52 8 @ field bs 60 8 @
        field bs 68 8 @ field bs 76 8 @ field bs 84 8 @ field bs 92 8 @ field bs 100 8 @
        field bs 108 4 @ field bs 112 4"
    using assms
    by (simp add: superblock_bytes_def superblock_of_bytes_def le_bytes_le_word length_field)
  also have "\<dots> = field bs 0 SB_SIZE"
    by (simp add: field_field_append)
  also have "\<dots> = bs" using assms by (simp add: field_whole)
  finally show ?thesis .
qed

lemma length_concat_le_bytes: "length (concat (map (le_bytes n) ds)) = n * length ds"
  by (induction ds) simp_all

lemma field_concat_le_bytes:
  "k < length ds \<Longrightarrow> field (concat (map (le_bytes n) ds)) (n * k) n = le_bytes n (ds ! k)"
proof (induction ds arbitrary: k)
  case Nil
  then show ?case by simp
next
  case (Cons d ds)
  show ?case
  proof (cases k)
    case 0
    then show ?thesis by (simp add: field_whole_append)
  next
    case (Suc j)
    with Cons show ?thesis by (simp add: field_append_right)
  qed
qed

lemma length_direct_bytes [simp]: "length (direct_bytes ds) = 48"
  by (simp only: direct_bytes_def length_concat_le_bytes length_take length_append
      length_replicate) simp

lemma direct_bytes_full:
  "length ds = DIRECT_MAX \<Longrightarrow> direct_bytes ds = concat (map (le_bytes 4) ds)"
  by (simp add: direct_bytes_def)

lemma length_inode_bytes [simp]: "length (inode_bytes ino) = INODE_SIZE"
  by (simp add: inode_bytes_def)

lemma length_dirent_bytes [simp]: "length (dirent_bytes de) = DIRENT_SIZE"
  by (simp add: dirent_bytes_def)

lemma length_direct_of_bytes [simp]: "length (direct (inode_of_bytes bs)) = DIRECT_MAX"
  by (simp add: inode_of_bytes_def)

lemma direct_field:
  assumes "length ds = DIRECT_MAX" "k < DIRECT_MAX"
  shows "field (pre @ concat (map (le_bytes 4) ds) @ post) (length pre + 4 * k) 4
         = le_bytes 4 (ds ! k)"
proof -
  have "4 * k + 4 \<le> length (concat (map (le_bytes 4) ds))"
    using assms by (simp add: length_concat_le_bytes)
  then have "field (concat (map (le_bytes 4) ds) @ post) (4 * k) 4
             = field (concat (map (le_bytes 4) ds)) (4 * k) 4"
    by (simp add: field_append_left)
  then show ?thesis
    using assms by (simp add: field_append_right field_concat_le_bytes)
qed

lemma inode_of_bytes_inverse:
  assumes "length (direct ino) = DIRECT_MAX"
  shows "inode_of_bytes (inode_bytes ino) = ino"
proof -
  let ?pre = "le_bytes 2 (mode ino) @ le_bytes 2 (links ino) @ le_bytes 4 (uid ino) @
     le_bytes 4 (gid ino) @ le_bytes 8 (size_bytes ino) @ le_bytes 8 (atime ino) @
     le_bytes 8 (mtime ino) @ le_bytes 8 (ctime ino)"
  let ?post = "le_bytes 4 (reserved_0 ino) @ le_bytes 4 (reserved_1 ino) @
     le_bytes 4 (reserved_2 ino) @ le_bytes 4 (proj_id ino) @
     le_bytes 4 (uid16_gid16 ino) @ le_bytes 8 (xattr_ptr ino) @
     le_bytes 8 (inode_crc ino)"
  have bytes: "inode_bytes ino = ?pre @ concat (map (le_bytes 4) (direct ino)) @ ?post"
    using assms by (simp add: inode_bytes_def direct_bytes_full)
  have pre: "length ?pre = 44" by simp
  have d: "map (\<lambda>k. le_word (field (inode_bytes ino) (44 + 4 * k) 4) :: u32) [0..<DIRECT_MAX]
           = direct ino"
  proof (rule nth_equalityI)
    show "length (map (\<lambda>k. le_word (field (inode_bytes ino) (44 + 4 * k) 4) :: u32)
            [0..<DIRECT_MAX]) = length (direct ino)"
      using assms by simp
  next
    fix k assume "k < length (map (\<lambda>k. le_word (field (inode_bytes ino) (44 + 4 * k) 4) :: u32)
            [0..<DIRECT_MAX])"
    then have k: "k < DIRECT_MAX" by simp
    have "field (inode_bytes ino) (length ?pre + 4 * k) 4 = le_bytes 4 (direct ino ! k)"
      unfolding bytes using assms k by (rule direct_field)
    then have "field (inode_bytes ino) (44 + 4 * k) 4 = le_bytes 4 (direct ino ! k)"
      by (simp only: pre)
    with k show "map (\<lambda>k. le_word (field (inode_bytes ino) (44 + 4 * k) 4) :: u32)
            [0..<DIRECT_MAX] ! k = direct ino ! k"
      by (simp add: le_word_le_bytes del: upt_Suc)
  qed
  have rest: "inode_of_bytes (inode_bytes ino)
      = ino\<lparr>direct := map (\<lambda>k. le_word (field (inode_bytes ino) (44 + 4 * k) 4) :: u32)
            [0..<DIRECT_MAX]\<rparr>"
    using assms
    by (simp add: inode_of_bytes_def [of "inode_bytes ino"])
       (simp add: inode_bytes_def field_append_right field_whole_append field_whole
          le_word_le_bytes)
  show ?thesis by (simp add: rest d)
qed

lemma field_Cons: "field (x # xs) (Suc n) m = field xs n m"
  by (simp add: field_def)

lemma dirent_of_bytes_inverse:
  assumes "length (name de) = MAX_FILENAME"
  shows "dirent_of_bytes (dirent_bytes de) = de"
  using assms
  by (simp add: dirent_of_bytes_def dirent_bytes_def field_append_right field_whole_append
      field_whole le_word_le_bytes nth_append field_Cons)

section \<open>Buffer accesses and bitmap bits\<close>

lemma memcpy_Some:
  "memcpy img off src = Some img' \<longleftrightarrow>
     off + length src \<le> length img \<and> img' = take off img @ src @ drop (off + length src) img"
  by (auto simp: memcpy_def)

lemma memcpy_length: "memcpy img off src = Some img' \<Longrightarrow> length img' = length img"
  by (auto simp: memcpy_Some)

lemma memcpy_nth:
  assumes "memcpy img off src = Some img'" "a < length img"
  shows "img' ! a = (if off \<le> a \<and> a < off + length src then src ! (a - off) else img ! a)"
proof -
  from assms have b: "off + length src \<le> length img"
    and e: "img' = take off img @ src @ drop (off + length src) img"
    by (simp_all add: memcpy_Some)
  show ?thesis
    using b assms(2) by (auto simp: e nth_append min_def)
qed

lemma memcpy_ok: "off + length src \<le> length img \<Longrightarrow> \<exists>img'. memcpy img off src = Some img'"
  by (simp add: memcpy_def)

lemma memset0_length: "memset0 img off n = Some img' \<Longrightarrow> length img' = length img"
  by (auto simp: memset0_def dest: memcpy_length)

lemma memset0_nth:
  assumes "memset0 img off n = Some img'" "a < length img"
  shows "img' ! a = (if off \<le> a \<and> a < off + n then 0 else img ! a)"
  using memcpy_nth [of img off "replicate n 0" img' a] assms
  by (auto simp: memset0_def)

lemma memset0_in_bounds: "memset0 img off n = Some img' \<Longrightarrow> off + n \<le> length img"
  by (simp add: memset0_def memcpy_Some)

lemma peek_Some:
  "peek img off n = Some bs \<longleftrightarrow> off + n \<le> length img \<and> bs = take n (drop off img)"
  by (auto simp: peek_def)

lemma peek_length: "peek img off n = Some bs \<Longrightarrow> length bs = n"
  by (auto simp: peek_Some)

lemma peek_nth: "peek img off n = Some bs \<Longrightarrow> i < n \<Longrightarrow> bs ! i = img ! (off + i)"
  by (auto simp: peek_Some)

lemma peek_eqI:
  assumes "length img' = length img"
    and "\<And>a. off \<le> a \<Longrightarrow> a < off + n \<Longrightarrow> img' ! a = img ! a"
  shows "peek img' off n = peek img off n"
proof (cases "off + n \<le> length img")
  case True
  have "take n (drop off img') = take n (drop off img)"
  proof (rule nth_equalityI)
    show "length (take n (drop off img')) = length (take n (drop off img))"
      using assms(1) by simp
  next
    fix i assume "i < length (take n (drop off img'))"
    then have "i < n" by simp
    with True assms show "take n (drop off img') ! i = take n (drop off img) ! i"
      by simp
  qed
  with True assms(1) show ?thesis by (simp add: peek_def)
next
  case False
  with assms(1) show ?thesis by (simp add: peek_def)
qed

lemma peek_memcpy_same:
  "memcpy img off src = Some img' \<Longrightarrow> peek img' off (length src) = Some src"
  by (auto simp: memcpy_Some peek_def)

lemma peek_memcpy_other:
  assumes "memcpy img off src = Some img'"
    and "p + n \<le> off \<or> off + length src \<le> p"
  shows "peek img' p n = peek img p n"
proof (rule peek_eqI)
  show "length img' = length img" using assms(1) by (rule memcpy_length)
next
  fix a assume a: "p \<le> a" "a < p + n"
  show "img' ! a = img ! a"
  proof (cases "a < length img")
    case True
    with assms a show ?thesis by (auto simp: memcpy_nth)
  next
    case False
    with assms(1) a assms(2) show ?thesis
      by (auto simp: memcpy_Some nth_append)
  qed
qed

text \<open>The bit test of \<^const>\<open>bit_get\<close> is the library's \<^const>\<open>bit\<close>.\<close>

lemma bit_test: "(drop_bit k (x :: u8) AND 1 \<noteq> 0) \<longleftrightarrow> bit x k"
  by (simp add: bit_iff_and_drop_bit_eq_1 and_one_eq mod_2_eq_odd flip: even_iff_mod_2_eq_zero)

lemma bit_get_Some:
  "bit_get img bm idx = Some b \<longleftrightarrow>
     bm + idx div 8 < length img \<and> b = bit (img ! (bm + idx div 8)) (idx mod 8)"
  by (auto simp: bit_get_def bit_test)

lemma bit_set_Some:
  "bit_set img bm idx = Some img' \<longleftrightarrow>
     bm + idx div 8 < length img \<and>
     img' = img[bm + idx div 8 := (img ! (bm + idx div 8)) OR push_bit (idx mod 8) 1]"
  by (auto simp: bit_set_def)

lemma bit_clear_Some:
  "bit_clear img bm idx = Some img' \<longleftrightarrow>
     bm + idx div 8 < length img \<and>
     img' = img[bm + idx div 8 := (img ! (bm + idx div 8)) AND NOT (push_bit (idx mod 8) 1)]"
  by (auto simp: bit_clear_def)

lemma bit_set_length: "bit_set img bm idx = Some img' \<Longrightarrow> length img' = length img"
  by (auto simp: bit_set_Some)

lemma bit_clear_length: "bit_clear img bm idx = Some img' \<Longrightarrow> length img' = length img"
  by (auto simp: bit_clear_Some)

lemma bit_set_nth_other:
  "bit_set img bm idx = Some img' \<Longrightarrow> a \<noteq> bm + idx div 8 \<Longrightarrow> img' ! a = img ! a"
  by (auto simp: bit_set_Some)

lemma bit_clear_nth_other:
  "bit_clear img bm idx = Some img' \<Longrightarrow> a \<noteq> bm + idx div 8 \<Longrightarrow> img' ! a = img ! a"
  by (auto simp: bit_clear_Some)

lemma bit_or_mask: "k < 8 \<Longrightarrow> bit ((x :: u8) OR push_bit k 1) j \<longleftrightarrow> bit x j \<or> j = k"
  by (auto simp: bit_simps)

lemma bit_and_not_mask: "bit ((x :: u8) AND NOT (push_bit k 1)) j \<longleftrightarrow> bit x j \<and> j \<noteq> k"
  by (auto simp: bit_simps dest: bit_imp_le_length)

lemma idx_split: "(i :: nat) = j \<longleftrightarrow> i div 8 = j div 8 \<and> i mod 8 = j mod 8"
  by (metis div_mult_mod_eq)

lemma bit_get_in:
  "bm + idx div 8 < length img \<Longrightarrow>
   bit_get img bm idx = Some (bit (img ! (bm + idx div 8)) (idx mod 8))"
  by (simp add: bit_get_Some)

lemma bit_get_out: "\<not> bm + idx div 8 < length img \<Longrightarrow> bit_get img bm idx = None"
  by (simp add: bit_get_def)

lemma bit_get_bit_set:
  assumes "bit_set img bm idx = Some img'"
  shows "bit_get img' bm j = map_option (\<lambda>b. b \<or> j = idx) (bit_get img bm j)"
proof (cases "bm + j div 8 < length img")
  case False
  with assms show ?thesis by (simp add: bit_get_out bit_set_length)
next
  case True
  from assms have len: "length img' = length img" by (rule bit_set_length)
  from assms have b: "bm + idx div 8 < length img"
    and e: "img' = img[bm + idx div 8 := (img ! (bm + idx div 8)) OR push_bit (idx mod 8) 1]"
    by (simp_all only: bit_set_Some)
  have g': "bit_get img' bm j = Some (bit (img' ! (bm + j div 8)) (j mod 8))"
    using True len by (simp only: bit_get_in)
  have g: "bit_get img bm j = Some (bit (img ! (bm + j div 8)) (j mod 8))"
    using True by (simp only: bit_get_in)
  show ?thesis
  proof (cases "j div 8 = idx div 8")
    case True
    have "img' ! (bm + j div 8) = (img ! (bm + j div 8)) OR push_bit (idx mod 8) 1"
      using b by (simp only: e True nth_list_update_eq)
    then have "bit (img' ! (bm + j div 8)) (j mod 8)
               \<longleftrightarrow> bit (img ! (bm + j div 8)) (j mod 8) \<or> j mod 8 = idx mod 8"
      by (simp only: bit_or_mask [of "idx mod 8"] pos_mod_bound zero_less_numeral)
    with True show ?thesis
      by (simp only: g g' idx_split [of j idx]) simp
  next
    case False
    then have "img' ! (bm + j div 8) = img ! (bm + j div 8)"
      by (simp add: e)
    with False show ?thesis
      by (simp only: g g' idx_split [of j idx]) simp
  qed
qed

lemma bit_get_bit_clear:
  assumes "bit_clear img bm idx = Some img'"
  shows "bit_get img' bm j = map_option (\<lambda>b. b \<and> j \<noteq> idx) (bit_get img bm j)"
proof (cases "bm + j div 8 < length img")
  case False
  with assms show ?thesis by (simp add: bit_get_out bit_clear_length)
next
  case True
  from assms have len: "length img' = length img" by (rule bit_clear_length)
  from assms have b: "bm + idx div 8 < length img"
    and e: "img' = img[bm + idx div 8 := (img ! (bm + idx div 8)) AND NOT (push_bit (idx mod 8) 1)]"
    by (simp_all only: bit_clear_Some)
  have g': "bit_get img' bm j = Some (bit (img' ! (bm + j div 8)) (j mod 8))"
    using True len by (simp only: bit_get_in)
  have g: "bit_get img bm j = Some (bit (img ! (bm + j div 8)) (j mod 8))"
    using True by (simp only: bit_get_in)
  show ?thesis
  proof (cases "j div 8 = idx div 8")
    case True
    have "img' ! (bm + j div 8) = (img ! (bm + j div 8)) AND NOT (push_bit (idx mod 8) 1)"
      using b by (simp only: e True nth_list_update_eq)
    then have "bit (img' ! (bm + j div 8)) (j mod 8)
               \<longleftrightarrow> bit (img ! (bm + j div 8)) (j mod 8) \<and> j mod 8 \<noteq> idx mod 8"
      by (simp only: bit_and_not_mask)
    with True show ?thesis
      by (simp only: g g' idx_split [of j idx]) simp
  next
    case False
    then have "img' ! (bm + j div 8) = img ! (bm + j div 8)"
      by (simp add: e)
    with False show ?thesis
      by (simp only: g g' idx_split [of j idx]) simp
  qed
qed

lemma bit_get_eqI:
  "length img' = length img \<Longrightarrow> img' ! (bm + idx div 8) = img ! (bm + idx div 8) \<Longrightarrow>
   bit_get img' bm idx = bit_get img bm idx"
  by (simp add: bit_get_def)

section \<open>Frames: which bits a step may change\<close>

lemma frame_refl: "frame img img S"
  by (simp add: frame_def)

lemma frame_mono: "frame img img' S \<Longrightarrow> S \<subseteq> T \<Longrightarrow> frame img img' T"
  by (auto simp: frame_def)

lemma frame_trans: "frame a b S \<Longrightarrow> frame b c T \<Longrightarrow> frame a c (S \<union> T)"
  unfolding frame_def by (metis UnCI)

lemma frame_length: "frame img img' S \<Longrightarrow> length img' = length img"
  by (simp add: frame_def)

lemma frame_nth:
  assumes "frame img img' S" "a < length img" "\<And>k. (a, k) \<notin> S"
  shows "img' ! a = img ! a"
  by (rule bit_eqI) (use assms in \<open>auto simp: frame_def\<close>)

lemma frame_bit:
  "frame img img' S \<Longrightarrow> a < length img \<Longrightarrow> (a, k) \<notin> S \<Longrightarrow> bit (img' ! a) k = bit (img ! a) k"
  by (auto simp: frame_def)

lemma frame_memcpy:
  assumes "memcpy img off src = Some img'"
  shows "frame img img' (bytes_at off (length src))"
  unfolding frame_def bytes_at_def
  using memcpy_length [OF assms] memcpy_nth [OF assms]
  by (auto split: if_splits)

lemma frame_memset0:
  "memset0 img off n = Some img' \<Longrightarrow> frame img img' (bytes_at off n)"
  using frame_memcpy [of img off "replicate n 0" img'] by (simp add: memset0_def)

lemma frame_bit_set:
  assumes "bit_set img bm idx = Some img'"
  shows "frame img img' {bit_at bm idx}"
proof -
  from assms have b: "bm + idx div 8 < length img"
    and e: "img' = img[bm + idx div 8 := (img ! (bm + idx div 8)) OR push_bit (idx mod 8) 1]"
    by (simp_all only: bit_set_Some)
  have "(a, k) = bit_at bm idx"
    if "a < length img" "bit (img' ! a) k \<noteq> bit (img ! a) k" for a k
  proof (cases "a = bm + idx div 8")
    case False
    with that show ?thesis by (simp add: e)
  next
    case True
    have "img' ! a = (img ! a) OR push_bit (idx mod 8) 1"
      using b by (simp only: e True nth_list_update_eq)
    then have "bit (img' ! a) k \<longleftrightarrow> bit (img ! a) k \<or> k = idx mod 8"
      by (simp only: bit_or_mask [of "idx mod 8"] pos_mod_bound zero_less_numeral)
    with that True show ?thesis by (auto simp: bit_at_def)
  qed
  then show ?thesis
    unfolding frame_def using bit_set_length [OF assms] by auto
qed

lemma frame_bit_clear:
  assumes "bit_clear img bm idx = Some img'"
  shows "frame img img' {bit_at bm idx}"
proof -
  from assms have b: "bm + idx div 8 < length img"
    and e: "img' = img[bm + idx div 8 := (img ! (bm + idx div 8)) AND NOT (push_bit (idx mod 8) 1)]"
    by (simp_all only: bit_clear_Some)
  have "(a, k) = bit_at bm idx"
    if "a < length img" "bit (img' ! a) k \<noteq> bit (img ! a) k" for a k
  proof (cases "a = bm + idx div 8")
    case False
    with that show ?thesis by (simp add: e)
  next
    case True
    have "img' ! a = (img ! a) AND NOT (push_bit (idx mod 8) 1)"
      using b by (simp only: e True nth_list_update_eq)
    then have "bit (img' ! a) k \<longleftrightarrow> bit (img ! a) k \<and> k \<noteq> idx mod 8"
      by (simp only: bit_and_not_mask)
    with that True show ?thesis by (auto simp: bit_at_def)
  qed
  then show ?thesis
    unfolding frame_def using bit_clear_length [OF assms] by auto
qed

lemma peek_frame:
  assumes "frame img img' S" "\<And>a k. off \<le> a \<Longrightarrow> a < off + n \<Longrightarrow> (a, k) \<notin> S"
  shows "peek img' off n = peek img off n"
proof (cases "off + n \<le> length img")
  case True
  show ?thesis
  proof (rule peek_eqI)
    show "length img' = length img" using assms(1) by (rule frame_length)
  next
    fix a assume "off \<le> a" "a < off + n"
    with True assms show "img' ! a = img ! a" by (intro frame_nth [OF assms(1)]) auto
  qed
next
  case False
  then show ?thesis using frame_length [OF assms(1)] by (simp add: peek_def)
qed

lemma bit_get_frame:
  assumes "frame img img' S" "bit_at bm idx \<notin> S"
  shows "bit_get img' bm idx = bit_get img bm idx"
proof (cases "bm + idx div 8 < length img")
  case True
  then show ?thesis
    using assms frame_bit [OF assms(1) True, of "idx mod 8"] frame_length [OF assms(1)]
    by (simp add: bit_get_in bit_at_def)
next
  case False
  then show ?thesis using frame_length [OF assms(1)] by (simp add: bit_get_out)
qed

section \<open>The layout read from a superblock\<close>

lemma geometry_offsets:
  assumes "geometry sb len"
  shows "inode_bm_off sb = BS" "data_bm_off sb = 2 * BS" "inode_tbl_off sb = 3 * BS"
    "data_region_off sb = 3 * BS + unat (inode_table_blocks sb) * BS"
proof -
  from assms have s: "inode_bitmap_start sb = 1" "data_bitmap_start sb = 2"
    "inode_table_start sb = 3"
    and d: "unat (data_region_start sb) = 3 + unat (inode_table_blocks sb)"
    and l: "(unat (data_region_start sb) + unat (data_region_blocks sb)) * BS \<le> len"
      "len < 2 ^ 64"
    by (simp_all add: geometry_def)
  show "inode_bm_off sb = BS" "data_bm_off sb = 2 * BS" "inode_tbl_off sb = 3 * BS"
    by (simp_all add: inode_bm_off_def data_bm_off_def inode_tbl_off_def s)
  have "unat (data_region_start sb) * 4096 < 2 ^ 64" using l by simp
  then have "unat (data_region_start sb * 4096) = unat (data_region_start sb) * 4096"
    by (simp add: unat_mult_lem [THEN iffD1])
  then show "data_region_off sb = 3 * BS + unat (inode_table_blocks sb) * BS"
    by (simp add: data_region_off_def d)
qed

lemma geometry_bounds:
  assumes "geometry sb len"
  shows "unat (inode_count sb) * INODE_SIZE \<le> unat (inode_table_blocks sb) * BS"
    "unat (inode_count sb) \<le> 8 * BS" "unat (data_region_blocks sb) \<le> 8 * BS"
    "data_region_off sb + unat (data_region_blocks sb) * BS \<le> len" "len < 2 ^ 64"
  using assms geometry_offsets(4) [OF assms]
  by (simp_all add: geometry_def add_mult_distrib)

lemma peek_take_drop: "off + n \<le> length img \<Longrightarrow> peek img off n = Some (take n (drop off img))"
  by (simp add: peek_def)

lemma take_drop_frame:
  assumes "frame img img' S" "\<And>a k. off \<le> a \<Longrightarrow> a < off + n \<Longrightarrow> (a, k) \<notin> S"
    "off + n \<le> length img"
  shows "take n (drop off img') = take n (drop off img)"
  using peek_frame [OF assms(1,2), of off n] assms(3) frame_length [OF assms(1)]
  by (simp add: peek_def)

lemma sane_imageD:
  assumes "sane_image img"
  shows "BS \<le> length img" "magic (image_sb img) = 0x4D565346"
    "geometry (image_sb img) (length img)" "bit_get img BS 0 = Some True"
  using assms by (simp_all add: sane_image_def)

lemma valid_imageD:
  assumes "valid_image img"
  shows "BS \<le> length img" "magic (image_sb img) = 0x4D565346"
    "geometry (image_sb img) (length img)" "bit_get img BS 0 = Some True"
    "unat (direct (inode_at img 0) ! 0) < unat (data_region_blocks (image_sb img))"
    "bit_get img (2 * BS) (unat (direct (inode_at img 0) ! 0)) = Some True"
    "sane_image img"
  using assms by (simp_all add: valid_image_def sane_image_def)

lemma geometry_regions:
  assumes "geometry sb len"
  shows "j < unat (inode_count sb) \<Longrightarrow> BS + j div 8 < 2 * BS"
    and "j < unat (data_region_blocks sb) \<Longrightarrow> 2 * BS + j div 8 < 3 * BS"
    and "j < unat (inode_count sb) \<Longrightarrow> 3 * BS + j * INODE_SIZE + INODE_SIZE \<le> data_region_off sb"
    and "j < unat (data_region_blocks sb) \<Longrightarrow> data_region_off sb + j * BS + BS \<le> len"
    and "3 * BS \<le> data_region_off sb" and "data_region_off sb \<le> len"
proof -
  note b = geometry_bounds [OF assms]
  note o = geometry_offsets [OF assms]
  show "BS + j div 8 < 2 * BS" if "j < unat (inode_count sb)"
    using that b(2) by simp
  show "2 * BS + j div 8 < 3 * BS" if "j < unat (data_region_blocks sb)"
    using that b(3) by simp
  show "3 * BS + j * INODE_SIZE + INODE_SIZE \<le> data_region_off sb" if "j < unat (inode_count sb)"
  proof -
    from that have "(j + 1) * INODE_SIZE \<le> unat (inode_count sb) * INODE_SIZE"
      by (simp only: mult_le_mono1 Suc_leI Suc_eq_plus1 [symmetric])
    with b(1) show ?thesis by (simp add: o(4))
  qed
  show "data_region_off sb + j * BS + BS \<le> len" if "j < unat (data_region_blocks sb)"
  proof -
    from that have "(j + 1) * BS \<le> unat (data_region_blocks sb) * BS"
      by (simp only: mult_le_mono1 Suc_leI Suc_eq_plus1 [symmetric])
    with b(4) show ?thesis by simp
  qed
  show "3 * BS \<le> data_region_off sb" by (simp add: o(4))
  show "data_region_off sb \<le> len" using b(4) by simp
qed

lemma sint_of_nat_small:
  assumes "j < 2 ^ 31"
  shows "sint (of_nat j :: 32 word) = int j"
proof -
  have "unat (of_nat j :: 32 word) = j" using assms by (simp add: unat_of_nat)
  then have u: "uint (of_nat j :: 32 word) = int j" by (simp only: uint_nat)
  have b: "- (2 ^ 31) \<le> int j" "int j < 2 ^ 31" using assms by simp_all
  have "sint (of_nat j :: 32 word) = signed_take_bit 31 (uint (of_nat j :: 32 word))"
    by (simp only: sint_uint) simp
  also have "\<dots> = int j" unfolding u using b by (rule signed_take_bit_int_eq_self)
  finally show ?thesis .
qed

lemma unat_scast_small:
  assumes "j < 2 ^ 31"
  shows "unat (scast (of_nat j :: 32 word) :: u64) = j" and "\<not> (of_nat j :: 32 word) <s 0"
proof -
  note s = sint_of_nat_small [OF assms]
  show "\<not> (of_nat j :: 32 word) <s 0"
    unfolding word_sless_alt s by simp
  have "(scast (of_nat j :: 32 word) :: u64) = word_of_int (int j)"
    unfolding scast_eq s ..
  also have "\<dots> = of_nat j" by simp
  finally show "unat (scast (of_nat j :: 32 word) :: u64) = j"
    using assms by (simp add: unat_of_nat)
qed

lemma minus_one_sless: "(- 1 :: 32 word) <s 0"
  by (simp add: word_sless_alt)

section \<open>The layout and the formatted image\<close>

lemma unat_tbl_blocks:
  assumes "unat (ic :: u64) * 128 + 4095 < 2 ^ 64"
    and "t = (ic * 128 + 4096 - 1) div 4096"
  shows "unat t = (unat ic * 128 + 4095) div 4096"
    and "unat (3 + t) = 3 + (unat ic * 128 + 4095) div 4096"
proof -
  have m: "unat (ic * 128) = unat ic * 128"
    using assms(1) by (simp add: unat_mult_lem [THEN iffD1])
  have e: "ic * 128 + 4096 - 1 = ic * 128 + 4095" by simp
  have a: "unat (ic * 128 + 4095) = unat (ic * 128) + 4095"
    using assms(1) m by (simp add: unat_add_lem [THEN iffD1])
  show t: "unat t = (unat ic * 128 + 4095) div 4096"
    unfolding assms(2) e by (simp only: unat_div a m) simp
  have "(unat ic * 128 + 4095) div 4096 < 2 ^ 52"
    using assms(1) by simp
  then have "unat (3 :: u64) + unat t < 2 ^ 64"
    by (simp add: t)
  then show "unat (3 + t) = 3 + (unat ic * 128 + 4095) div 4096"
    by (simp add: unat_add_lem [THEN iffD1] t)
qed

lemma layout_unfold:
  "layout tb ic =
     (let t = (ic * 128 + 4096 - 1) div 4096
      in if 3 + t \<ge> tb then Inl CapacityError else Inr (t, 3 + t, tb - (3 + t)))"
  unfolding layout_def Let_def ..

lemma layout_Inl:
  assumes "unat ic * 128 + 4095 < 2 ^ 64"
  shows "layout tb ic = Inl e \<longleftrightarrow>
           e = CapacityError \<and> unat tb \<le> 3 + (unat ic * 128 + 4095) div 4096"
proof -
  define t where "t = (ic * 128 + 4096 - 1) div 4096"
  note u = unat_tbl_blocks [OF assms t_def]
  have "layout tb ic = (if 3 + t \<ge> tb then Inl CapacityError else Inr (t, 3 + t, tb - (3 + t)))"
    unfolding layout_unfold t_def Let_def ..
  then show ?thesis
    by (auto simp: word_le_nat_alt u)
qed

lemma layout_Inr:
  assumes "unat ic * 128 + 4095 < 2 ^ 64"
  shows "layout tb ic = Inr (tbl, ds, db) \<longleftrightarrow>
           3 + (unat ic * 128 + 4095) div 4096 < unat tb \<and>
           unat tbl = (unat ic * 128 + 4095) div 4096 \<and>
           unat ds = 3 + unat tbl \<and> unat db = unat tb - unat ds"
proof -
  define t where "t = (ic * 128 + 4096 - 1) div 4096"
  note u = unat_tbl_blocks [OF assms t_def]
  have l: "layout tb ic = (if 3 + t \<ge> tb then Inl CapacityError else Inr (t, 3 + t, tb - (3 + t)))"
    unfolding layout_unfold t_def Let_def ..
  have 3: "\<not> tb \<le> 3 + t \<Longrightarrow> unat (tb - (3 + t)) = unat tb - unat (3 + t)"
    by (simp add: unat_sub)
  have eq: "\<And>x y :: u64. x = y \<longleftrightarrow> unat x = unat y" by (simp add: word_unat_eq_iff)
  show ?thesis
    unfolding l
    by (cases "tb \<le> 3 + t")
       (use 3 in \<open>auto simp: eq [of t] eq [of "3 + t"] eq [of "tb - (3 + t)"] u word_le_nat_alt\<close>)
qed

lemma layout_example: "layout 45 128 = Inr (4, 7, 38)"
  by (simp add: layout_def)

lemma bit_set_nth_same:
  "bit_set img bm idx = Some img' \<Longrightarrow>
   img' ! (bm + idx div 8) = (img ! (bm + idx div 8)) OR push_bit (idx mod 8) 1"
  by (auto simp: bit_set_Some)

lemma bit_set_ok: "bm + idx div 8 < length img \<Longrightarrow> \<exists>img'. bit_set img bm idx = Some img'"
  by (simp add: bit_set_def)

lemma memset0_ok: "off + n \<le> length img \<Longrightarrow> \<exists>img'. memset0 img off n = Some img'"
  by (simp add: memset0_def memcpy_def)

lemma format_image:
  assumes fit: "fits tb ic"
    and lay: "layout tb ic = Inr (tbl, ds, db)"
  shows "\<exists>img. format tb ic now now' = Some (Inr img) \<and> length img = unat tb * BS \<and>
           (\<forall>a < length img.
              img ! a = fresh_byte (new_superblock tb ic tbl ds db now) (root_dir_inode now')
                          (unat ds * BS) a)"
proof -
  from fit have f1: "unat ic * 128 + 4095 < 2 ^ 64" and f2: "unat tb * 4096 < 2 ^ 64"
    by (simp_all add: fits_def)
  from lay f1 have lt: "3 + unat tbl < unat tb" and ds: "unat ds = 3 + unat tbl"
    by (simp_all add: layout_Inr)
  define L where "L = unat tb * BS"
  define D where "D = unat ds * BS"
  define T where "T = unat tbl * BS"
  define sbb where "sbb = superblock_bytes (new_superblock tb ic tbl ds db now)"
  define rootb where "rootb = inode_bytes (root_dir_inode now')"
  define dot where "dot = dirent_bytes (dot_entry ''.'')"
  define dotdot where "dotdot = dirent_bytes (dot_entry ''..'')"
  have uL: "unat (tb * 4096) = L"
    using f2 by (simp add: L_def unat_mult_lem [THEN iffD1])
  have uD: "unat (ds * 4096) = D"
    using f2 lt ds by (simp add: D_def unat_mult_lem [THEN iffD1])
  have uT: "unat (tbl * 4096) = T"
    using f2 lt by (simp add: T_def unat_mult_lem [THEN iffD1])
  have DT: "D = 3 * BS + T" by (simp add: D_def T_def ds)
  have DL: "D + BS \<le> L" using lt ds by (simp add: D_def L_def)
  have lens: "length sbb = SB_SIZE" "length rootb = INODE_SIZE"
    "length dot = DIRENT_SIZE" "length dotdot = DIRENT_SIZE"
    by (simp_all add: sbb_def rootb_def dot_def dotdot_def)
  define img0 :: buffer where "img0 = replicate L 0"
  have l0: "length img0 = L" by (simp add: img0_def)
  obtain img1 where s1: "memcpy img0 0 sbb = Some img1"
    using memcpy_ok [of 0 sbb img0] DL DT l0 lens by auto
  have l1: "length img1 = L" using memcpy_length [OF s1] l0 by simp
  obtain img2 where s2: "memset0 img1 BS BS = Some img2"
    using memset0_ok [of BS BS img1] DL DT l1 by auto
  have l2: "length img2 = L" using memset0_length [OF s2] l1 by simp
  obtain img3 where s3: "memset0 img2 (2 * BS) BS = Some img3"
    using memset0_ok [of "2 * BS" BS img2] DL DT l2 by auto
  have l3: "length img3 = L" using memset0_length [OF s3] l2 by simp
  obtain img4 where s4: "bit_set img3 BS 0 = Some img4"
    using bit_set_ok [of BS 0 img3] DL DT l3 by auto
  have l4: "length img4 = L" using bit_set_length [OF s4] l3 by simp
  obtain img5 where s5: "bit_set img4 (2 * BS) 0 = Some img5"
    using bit_set_ok [of "2 * BS" 0 img4] DL DT l4 by auto
  have l5: "length img5 = L" using bit_set_length [OF s5] l4 by simp
  obtain img6 where s6: "memset0 img5 (3 * BS) T = Some img6"
    using memset0_ok [of "3 * BS" T img5] DL DT l5 by auto
  have l6: "length img6 = L" using memset0_length [OF s6] l5 by simp
  obtain img7 where s7: "memcpy img6 (3 * BS) rootb = Some img7"
    using memcpy_ok [of "3 * BS" rootb img6] DL DT l6 lens by auto
  have l7: "length img7 = L" using memcpy_length [OF s7] l6 by simp
  obtain img8 where s8: "memset0 img7 D BS = Some img8"
    using memset0_ok [of D BS img7] DL l7 by auto
  have l8: "length img8 = L" using memset0_length [OF s8] l7 by simp
  obtain img9 where s9: "memcpy img8 D dot = Some img9"
    using memcpy_ok [of D dot img8] DL l8 lens by auto
  have l9: "length img9 = L" using memcpy_length [OF s9] l8 by simp
  obtain img10 where s10: "memcpy img9 (D + DIRENT_SIZE) dotdot = Some img10"
    using memcpy_ok [of "D + DIRENT_SIZE" dotdot img9] DL l9 lens by auto
  have l10: "length img10 = L" using memcpy_length [OF s10] l9 by simp
  have run: "format tb ic now now' = Some (Inr img10)"
    using s1 s2 s3 s4 s5 s6 s7 s8 s9 s10
    by (simp add: format_def lay uL uD uT img0_def sbb_def rootb_def dot_def dotdot_def)
  have bytes: "img10 ! a = fresh_byte (new_superblock tb ic tbl ds db now) (root_dir_inode now') D a"
    if a: "a < L" for a
  proof -
    have n1: "img1 ! a = (if a < SB_SIZE then sbb ! a else 0)"
      using memcpy_nth [OF s1, of a] a l0 lens by (simp add: img0_def)
    have n2: "img2 ! a = (if BS \<le> a \<and> a < 2 * BS then 0 else img1 ! a)"
      using memset0_nth [OF s2, of a] a l1 by simp
    have n3: "img3 ! a = (if 2 * BS \<le> a \<and> a < 3 * BS then 0 else img2 ! a)"
      using memset0_nth [OF s3, of a] a l2 by simp
    have z3: "img3 ! BS = 0" "img3 ! (2 * BS) = 0"
      using memset0_nth [OF s3, of BS] memset0_nth [OF s2, of BS] memset0_nth [OF s3, of "2 * BS"]
        DL DT l1 l2 by simp_all
    have n4: "img4 ! a = (if a = BS then 1 else img3 ! a)"
      using bit_set_nth_same [OF s4] bit_set_nth_other [OF s4, of a] z3 by auto
    have n5: "img5 ! a = (if a = 2 * BS then 1 else img4 ! a)"
      using bit_set_nth_same [OF s5] bit_set_nth_other [OF s5, of a] z3
        bit_set_nth_other [OF s4, of "2 * BS"] by auto
    have n6: "img6 ! a = (if 3 * BS \<le> a \<and> a < D then 0 else img5 ! a)"
      using memset0_nth [OF s6, of a] a l5 DT by simp
    have n7: "img7 ! a = (if 3 * BS \<le> a \<and> a < 3 * BS + INODE_SIZE then rootb ! (a - 3 * BS)
                else img6 ! a)"
      using memcpy_nth [OF s7, of a] a l6 lens by simp
    have n8: "img8 ! a = (if D \<le> a \<and> a < D + BS then 0 else img7 ! a)"
      using memset0_nth [OF s8, of a] a l7 by simp
    have n9: "img9 ! a = (if D \<le> a \<and> a < D + DIRENT_SIZE then dot ! (a - D) else img8 ! a)"
      using memcpy_nth [OF s9, of a] a l8 lens by simp
    have n10: "img10 ! a = (if D + DIRENT_SIZE \<le> a \<and> a < D + 128 then dotdot ! (a - (D + DIRENT_SIZE))
                else img9 ! a)"
      using memcpy_nth [OF s10, of a] a l9 lens by simp
    show ?thesis
      unfolding n10 n9 n8 n7 n6 n5 n4 n3 n2 n1 fresh_byte_def
      using DT
      by (simp add: sbb_def rootb_def dot_def dotdot_def)
  qed
  show ?thesis
    using run l10 bytes by (auto simp: L_def D_def)
qed

lemma ceil_div_least:
  assumes "0 < b"
  shows "a \<le> ceil_div a b * b" and "a \<le> n * b \<Longrightarrow> ceil_div a b \<le> n"
proof -
  have "a + b - 1 < (a + b - 1) div b * b + b"
    using assms by (metis div_mult_mod_eq add_less_cancel_left mod_less_divisor)
  then show "a \<le> ceil_div a b * b" using assms by (simp add: ceil_div_def)
  assume "a \<le> n * b"
  then have "a + b - 1 < (n + 1) * b" using assms by simp
  then have "(a + b - 1) div b < n + 1"
    using assms by (simp add: less_mult_imp_div_less)
  then show "ceil_div a b \<le> n" by (simp add: ceil_div_def)
qed

lemma superblock_crc_finalize_fields [simp]:
  "magic (superblock_crc_finalize sb) = magic sb"
  "version (superblock_crc_finalize sb) = version sb"
  "block_size (superblock_crc_finalize sb) = block_size sb"
  "total_blocks (superblock_crc_finalize sb) = total_blocks sb"
  "inode_count (superblock_crc_finalize sb) = inode_count sb"
  "inode_bitmap_start (superblock_crc_finalize sb) = inode_bitmap_start sb"
  "inode_bitmap_blocks (superblock_crc_finalize sb) = inode_bitmap_blocks sb"
  "data_bitmap_start (superblock_crc_finalize sb) = data_bitmap_start sb"
  "data_bitmap_blocks (superblock_crc_finalize sb) = data_bitmap_blocks sb"
  "inode_table_start (superblock_crc_finalize sb) = inode_table_start sb"
  "inode_table_blocks (superblock_crc_finalize sb) = inode_table_blocks sb"
  "data_region_start (superblock_crc_finalize sb) = data_region_start sb"
  "data_region_blocks (superblock_crc_finalize sb) = data_region_blocks sb"
  "root_inode (superblock_crc_finalize sb) = root_inode sb"
  "mtime_epoch (superblock_crc_finalize sb) = mtime_epoch sb"
  "flags (superblock_crc_finalize sb) = flags sb"
  by (simp_all add: superblock_crc_finalize_def Let_def)

lemma new_superblock_fields [simp]:
  "magic (new_superblock tb ic tbl ds db now) = 0x4D565346"
  "version (new_superblock tb ic tbl ds db now) = 1"
  "block_size (new_superblock tb ic tbl ds db now) = 4096"
  "total_blocks (new_superblock tb ic tbl ds db now) = tb"
  "inode_count (new_superblock tb ic tbl ds db now) = ic"
  "inode_bitmap_start (new_superblock tb ic tbl ds db now) = 1"
  "inode_bitmap_blocks (new_superblock tb ic tbl ds db now) = 1"
  "data_bitmap_start (new_superblock tb ic tbl ds db now) = 2"
  "data_bitmap_blocks (new_superblock tb ic tbl ds db now) = 1"
  "inode_table_start (new_superblock tb ic tbl ds db now) = 3"
  "inode_table_blocks (new_superblock tb ic tbl ds db now) = tbl"
  "data_region_start (new_superblock tb ic tbl ds db now) = ds"
  "data_region_blocks (new_superblock tb ic tbl ds db now) = db"
  "root_inode (new_superblock tb ic tbl ds db now) = 1"
  "mtime_epoch (new_superblock tb ic tbl ds db now) = now"
  "flags (new_superblock tb ic tbl ds db now) = 0"
  by (simp_all add: new_superblock_def)

lemma take_eq_nthI:
  assumes "length bs = n" "n \<le> length img" "\<And>i. i < n \<Longrightarrow> img ! i = bs ! i"
  shows "take n img = bs"
  by (rule nth_equalityI) (use assms in auto)

lemma format_superblock:
  assumes fit: "fits tb ic"
    and lay: "layout tb ic = Inr (tbl, ds, db)"
    and run: "format tb ic now now' = Some (Inr img)"
  shows "take SB_SIZE img = superblock_bytes (new_superblock tb ic tbl ds db now)"
    and "superblock_of_bytes (take SB_SIZE img) = new_superblock tb ic tbl ds db now"
proof -
  from fit have f1: "unat ic * 128 + 4095 < 2 ^ 64" by (simp add: fits_def)
  from lay f1 have lt: "3 + unat tbl < unat tb" and ds: "unat ds = 3 + unat tbl"
    by (simp_all add: layout_Inr)
  from format_image [OF fit lay, of now now'] run
  have len: "length img = unat tb * BS"
    and bytes: "\<And>a. a < length img \<Longrightarrow>
      img ! a = fresh_byte (new_superblock tb ic tbl ds db now) (root_dir_inode now') (unat ds * BS) a"
    by auto
  show "take SB_SIZE img = superblock_bytes (new_superblock tb ic tbl ds db now)"
  proof (rule take_eq_nthI)
    fix i assume "i < SB_SIZE"
    then show "img ! i = superblock_bytes (new_superblock tb ic tbl ds db now) ! i"
      using bytes [of i] len lt ds by (simp add: fresh_byte_def)
  qed (use len lt in simp_all)
  then show "superblock_of_bytes (take SB_SIZE img) = new_superblock tb ic tbl ds db now"
    by (simp add: superblock_of_bytes_inverse)
qed

lemma fits_example: "fits 45 128"
  by (simp add: fits_def)

lemma take_drop_eqI:
  assumes "off + n \<le> length img" "length bs = n" "\<And>i. i < n \<Longrightarrow> img ! (off + i) = bs ! i"
  shows "take n (drop off img) = bs"
  by (rule nth_equalityI) (use assms in auto)

lemma le_word_replicate_0: "(le_word (replicate n 0) :: 'a::len word) = 0"
  by (induction n) simp_all

text \<open>What a formatted image is, under the conditions the later lemmas need.\<close>

lemma builder_valid_format:
  assumes "builder_valid size_kib ic"
  shows "mkfs_builder size_kib ic now now' = format (size_kib div 4) ic now now'"
    and "fits (size_kib div 4) ic"
    and "\<exists>tbl ds db. layout (size_kib div 4) ic = Inr (tbl, ds, db) \<and> 4 \<le> unat tbl \<and>
           unat tbl \<le> 16 \<and> unat ic * INODE_SIZE \<le> unat tbl * BS \<and> unat ds = 3 + unat tbl \<and>
           unat db = unat (size_kib div 4) - unat ds \<and> unat ds < unat (size_kib div 4)"
    and "45 \<le> unat (size_kib div 4)" "unat (size_kib div 4) \<le> 1024"
    and "128 \<le> unat ic" "unat ic \<le> 512"
proof -
  from assms have s: "180 \<le> unat size_kib" "unat size_kib \<le> 4096" "size_kib mod 4 = 0"
    and i: "128 \<le> unat ic" "unat ic \<le> 512"
    by (simp_all add: builder_valid_def word_le_nat_alt)
  show "128 \<le> unat ic" "unat ic \<le> 512" by fact+
  have m: "unat (size_kib * 1024) = unat size_kib * 1024"
    using s by (simp add: unat_mult_lem [THEN iffD1])
  have "unat ((size_kib * 1024) div 4096) = unat (size_kib div 4)"
    by (simp only: unat_div m) simp
  then have e: "(size_kib * 1024) div 4096 = size_kib div 4"
    by (simp add: word_unat_eq_iff)
  have tb: "unat (size_kib div 4) = unat size_kib div 4" by (simp add: unat_div)
  show tb1: "45 \<le> unat (size_kib div 4)" and tb2: "unat (size_kib div 4) \<le> 1024"
    using s tb by simp_all
  then have n8: "\<not> size_kib div 4 < 8" by (simp add: word_less_nat_alt)
  from assms have v: "\<not> size_kib < 180" "\<not> 4096 < size_kib" "size_kib mod 4 = 0"
    "\<not> ic < 128" "\<not> 512 < ic"
    by (simp_all add: builder_valid_def not_less)
  show "mkfs_builder size_kib ic now now' = format (size_kib div 4) ic now now'"
    unfolding mkfs_builder_def Let_def e using v n8 by simp
  show f: "fits (size_kib div 4) ic" using i tb2 by (simp add: fits_def)
  then have f1: "unat ic * 128 + 4095 < 2 ^ 64" by (simp add: fits_def)
  have t: "4 \<le> (unat ic * 128 + 4095) div 4096" "(unat ic * 128 + 4095) div 4096 \<le> 16"
    using i by simp_all
  have c: "unat ic * INODE_SIZE \<le> ((unat ic * 128 + 4095) div 4096) * BS"
    using ceil_div_least(1) [of BS "unat ic * INODE_SIZE"] by (simp add: ceil_div_def)
  show "\<exists>tbl ds db. layout (size_kib div 4) ic = Inr (tbl, ds, db) \<and> 4 \<le> unat tbl \<and>
           unat tbl \<le> 16 \<and> unat ic * INODE_SIZE \<le> unat tbl * BS \<and> unat ds = 3 + unat tbl \<and>
           unat db = unat (size_kib div 4) - unat ds \<and> unat ds < unat (size_kib div 4)"
  proof (cases "layout (size_kib div 4) ic")
    case (Inl e)
    then show ?thesis using layout_Inl [OF f1, of "size_kib div 4" e] t tb1 by simp
  next
    case (Inr r)
    obtain tbl ds db where "r = (tbl, ds, db)" by (cases r) auto
    with Inr have l: "layout (size_kib div 4) ic = Inr (tbl, ds, db)" by simp
    then show ?thesis
      using layout_Inr [OF f1, of "size_kib div 4" tbl ds db] t c by auto
  qed
qed

lemma bit_one_u8: "bit (1 :: u8) k \<longleftrightarrow> k = 0"
  by (simp add: bit_1_iff)

lemma fresh_image:
  assumes fit: "fits tb ic"
    and lay: "layout tb ic = Inr (tbl, ds, db)"
    and t1: "1 \<le> unat tbl"
    and run: "format tb ic now now' = Some (Inr img)"
  shows "length img = unat tb * BS"
    and "image_sb img = new_superblock tb ic tbl ds db now"
    and "\<And>j. j < 8 * BS \<Longrightarrow> bit_get img BS j = Some (j = 0)"
    and "\<And>j. j < 8 * BS \<Longrightarrow> bit_get img (2 * BS) j = Some (j = 0)"
    and "take INODE_SIZE (drop (3 * BS) img) = inode_bytes (root_dir_inode now')"
    and "\<And>j. 0 < j \<Longrightarrow> (j + 1) * INODE_SIZE \<le> unat tbl * BS \<Longrightarrow>
           take INODE_SIZE (drop (3 * BS + j * INODE_SIZE) img) = replicate INODE_SIZE 0"
    and "take DIRENT_SIZE (drop (unat ds * BS) img) = dirent_bytes (dot_entry ''.'')"
    and "take DIRENT_SIZE (drop (unat ds * BS + DIRENT_SIZE) img) = dirent_bytes (dot_entry ''..'')"
    and "\<And>a. unat ds * BS + 128 \<le> a \<Longrightarrow> a < unat ds * BS + BS \<Longrightarrow> img ! a = 0"
proof -
  from fit have f1: "unat ic * 128 + 4095 < 2 ^ 64" by (simp add: fits_def)
  from lay f1 have lt: "3 + unat tbl < unat tb" and ds: "unat ds = 3 + unat tbl"
    by (simp_all add: layout_Inr)
  from format_image [OF fit lay, of now now'] run
  have len: "length img = unat tb * BS"
    and bytes: "\<And>a. a < length img \<Longrightarrow>
      img ! a = fresh_byte (new_superblock tb ic tbl ds db now) (root_dir_inode now') (unat ds * BS) a"
    by auto
  define D where "D = unat ds * BS"
  have D: "D = 3 * BS + unat tbl * BS" by (simp add: D_def ds)
  have DL: "D + BS \<le> length img" using lt ds by (simp add: D_def len)
  have T: "BS \<le> unat tbl * BS" using t1 by simp
  note b = bytes [folded D_def]
  show "length img = unat tb * BS" by fact
  show "image_sb img = new_superblock tb ic tbl ds db now"
    unfolding image_sb_def by (rule format_superblock [OF fit lay run])
  show "bit_get img BS j = Some (j = 0)" if "j < 8 * BS" for j
  proof -
    from that have j8: "j div 8 < BS" by simp
    then have inb: "BS + j div 8 < length img" using DL D by simp
    have "img ! (BS + j div 8) = (if j div 8 = 0 then 1 else 0)"
      using b [OF inb] j8 D T by (simp add: fresh_byte_def)
    then have "bit (img ! (BS + j div 8)) (j mod 8) \<longleftrightarrow> j div 8 = 0 \<and> j mod 8 = 0"
      by (simp add: bit_one_u8)
    then show ?thesis
      using inb by (simp only: bit_get_in idx_split [of j 0]) simp
  qed
  show "bit_get img (2 * BS) j = Some (j = 0)" if "j < 8 * BS" for j
  proof -
    from that have j8: "j div 8 < BS" by simp
    then have inb: "2 * BS + j div 8 < length img" using DL D by simp
    have "img ! (2 * BS + j div 8) = (if j div 8 = 0 then 1 else 0)"
      using b [OF inb] j8 D T by (simp add: fresh_byte_def)
    then have "bit (img ! (2 * BS + j div 8)) (j mod 8) \<longleftrightarrow> j div 8 = 0 \<and> j mod 8 = 0"
      by (simp add: bit_one_u8)
    then show ?thesis
      using inb by (simp only: bit_get_in idx_split [of j 0]) simp
  qed
  show "take INODE_SIZE (drop (3 * BS) img) = inode_bytes (root_dir_inode now')"
  proof (rule take_drop_eqI)
    fix i assume "i < INODE_SIZE"
    then show "img ! (3 * BS + i) = inode_bytes (root_dir_inode now') ! i"
      using b [of "3 * BS + i"] DL D T by (simp add: fresh_byte_def)
  qed (use DL D T in simp_all)
  show "take INODE_SIZE (drop (3 * BS + j * INODE_SIZE) img) = replicate INODE_SIZE 0"
    if "0 < j" "(j + 1) * INODE_SIZE \<le> unat tbl * BS" for j
  proof (rule take_drop_eqI)
    fix i assume "i < INODE_SIZE"
    then show "img ! (3 * BS + j * INODE_SIZE + i) = replicate INODE_SIZE 0 ! i"
      using b [of "3 * BS + j * INODE_SIZE + i"] DL D that by (simp add: fresh_byte_def)
  qed (use DL D that in simp_all)
  show "take DIRENT_SIZE (drop (unat ds * BS) img) = dirent_bytes (dot_entry ''.'')"
    unfolding D_def [symmetric]
  proof (rule take_drop_eqI)
    fix i assume "i < DIRENT_SIZE"
    then show "img ! (D + i) = dirent_bytes (dot_entry ''.'') ! i"
      using b [of "D + i"] DL by (simp add: fresh_byte_def)
  qed (use DL in simp_all)
  show "take DIRENT_SIZE (drop (unat ds * BS + DIRENT_SIZE) img) = dirent_bytes (dot_entry ''..'')"
    unfolding D_def [symmetric]
  proof (rule take_drop_eqI)
    fix i assume "i < DIRENT_SIZE"
    then show "img ! (D + DIRENT_SIZE + i) = dirent_bytes (dot_entry ''..'') ! i"
      using b [of "D + DIRENT_SIZE + i"] DL by (simp add: fresh_byte_def)
  qed (use DL in simp_all)
  show "img ! a = 0" if "unat ds * BS + 128 \<le> a" "a < unat ds * BS + BS" for a
    using b [of a] that DL by (simp add: fresh_byte_def D_def)
qed

lemma inode_crc_finalize_fields [simp]:
  "mode (inode_crc_finalize ino) = mode ino"
  "links (inode_crc_finalize ino) = links ino"
  "uid (inode_crc_finalize ino) = uid ino"
  "gid (inode_crc_finalize ino) = gid ino"
  "size_bytes (inode_crc_finalize ino) = size_bytes ino"
  "atime (inode_crc_finalize ino) = atime ino"
  "mtime (inode_crc_finalize ino) = mtime ino"
  "ctime (inode_crc_finalize ino) = ctime ino"
  "direct (inode_crc_finalize ino) = direct ino"
  by (simp_all add: inode_crc_finalize_def Let_def)

lemma take_120_inode_bytes:
  "take 120 (inode_bytes (ino\<lparr>inode_crc := c\<rparr>)) = take 120 (inode_bytes ino)"
  by (simp add: inode_bytes_def)

lemma inode_crc_finalize_crc:
  "inode_crc (inode_crc_finalize ino)
   = ucast (crc32 (take 120 (inode_bytes (inode_crc_finalize ino))))"
  by (simp add: inode_crc_finalize_def Let_def take_120_inode_bytes)

lemma root_dir_inode_fields [simp]:
  "mode (root_dir_inode t) = 0x4000" "links (root_dir_inode t) = 2"
  "size_bytes (root_dir_inode t) = 128" "atime (root_dir_inode t) = t"
  "mtime (root_dir_inode t) = t" "ctime (root_dir_inode t) = t"
  "direct (root_dir_inode t) = replicate DIRECT_MAX 0"
  by (simp_all add: root_dir_inode_def zero_inode_def)
     (simp add: numeral_eq_Suc)

lemma file_inode_fields [simp]:
  "mode (file_inode sz t bf) = 0x8000" "links (file_inode sz t bf) = 1"
  "size_bytes (file_inode sz t bf) = sz" "atime (file_inode sz t bf) = t"
  "mtime (file_inode sz t bf) = t" "ctime (file_inode sz t bf) = t"
  "direct (file_inode sz t bf) = bf @ replicate (DIRECT_MAX - length bf) 0"
  by (simp_all add: file_inode_def zero_inode_def)

lemma bump_root_fields [simp]:
  "mode (bump_root r) = mode r" "links (bump_root r) = links r + 1"
  "size_bytes (bump_root r) = size_bytes r + 64" "atime (bump_root r) = atime r"
  "mtime (bump_root r) = mtime r" "ctime (bump_root r) = ctime r"
  "direct (bump_root r) = direct r"
  by (simp_all add: bump_root_def)

lemma take_63_dirent_bytes:
  "take 63 (dirent_bytes (de\<lparr>dchecksum := c\<rparr>)) = take 63 (dirent_bytes de)"
  by (simp add: dirent_bytes_def)

lemma dirent_checksum_finalize_fields [simp]:
  "inode_no (dirent_checksum_finalize de) = inode_no de"
  "dtype (dirent_checksum_finalize de) = dtype de"
  "name (dirent_checksum_finalize de) = name de"
  by (simp_all add: dirent_checksum_finalize_def)

lemma dirent_checksum_finalize_sum:
  "dchecksum (dirent_checksum_finalize de)
   = fold (\<lambda>b x. x XOR b) (take 63 (dirent_bytes (dirent_checksum_finalize de))) 0"
  by (simp add: dirent_checksum_finalize_def take_63_dirent_bytes)

lemma length_strncpy: "n \<le> length dst \<Longrightarrow> length (strncpy dst src n) = length dst"
  by (simp add: strncpy_def)

lemma strncpy_short:
  "length src \<le> n \<Longrightarrow> n \<le> length dst \<Longrightarrow>
   strncpy dst src n = src @ replicate (n - length src) 0 @ drop n dst"
  by (simp add: strncpy_def)

lemma strncpy_long:
  "n \<le> length src \<Longrightarrow> strncpy dst src n = take n src @ drop n dst"
  by (simp add: strncpy_def)

lemma dot_entry_fields:
  "inode_no (dot_entry s) = 1" "dtype (dot_entry s) = 2"
  "length (name (dot_entry s)) = MAX_FILENAME"
  by (simp_all add: dot_entry_def zero_dirent_def strncpy_def)

lemma dot_entry_name:
  assumes "length s \<le> 57"
  shows "name (dot_entry s) = cstring s @ replicate (MAX_FILENAME - length s) 0"
proof -
  have "MAX_FILENAME - length s = Suc (57 - length s)" using assms by simp
  then show ?thesis
    using assms
    by (simp add: dot_entry_def zero_dirent_def strncpy_def cstring_def replicate_append_same)
qed

lemma new_dirent_fields:
  "inode_no (new_dirent n hf) = n" "dtype (new_dirent n hf) = 1"
  "length (name (new_dirent n hf)) = MAX_FILENAME"
  "name (new_dirent n hf) = take 57 (cstring (basename hf) @ replicate 57 0) @ [0]"
  by (simp_all add: new_dirent_def zero_dirent_def strncpy_def)

lemma builder_image:
  assumes v: "builder_valid size_kib ic"
  obtains img tbl ds db where
    "mkfs_builder size_kib ic now now' = Some (Inr img)"
    "format (size_kib div 4) ic now now' = Some (Inr img)"
    "fits (size_kib div 4) ic"
    "layout (size_kib div 4) ic = Inr (tbl, ds, db)"
    "4 \<le> unat tbl" "unat tbl \<le> 16" "unat ic * INODE_SIZE \<le> unat tbl * BS"
    "unat ds = 3 + unat tbl" "unat db = unat (size_kib div 4) - unat ds"
    "unat ds < unat (size_kib div 4)" "unat (size_kib div 4) \<le> 1024" "unat ic \<le> 512"
    "128 \<le> unat ic"
proof -
  note b = builder_valid_format [OF v]
  from b(3) obtain tbl ds db where l: "layout (size_kib div 4) ic = Inr (tbl, ds, db)"
    "4 \<le> unat tbl" "unat tbl \<le> 16" "unat ic * INODE_SIZE \<le> unat tbl * BS"
    "unat ds = 3 + unat tbl" "unat db = unat (size_kib div 4) - unat ds"
    "unat ds < unat (size_kib div 4)"
    by blast
  from format_image [OF b(2) l(1), of now now'] obtain img where
    "format (size_kib div 4) ic now now' = Some (Inr img)" by blast
  with b l that show ?thesis by (simp add: b(1))
qed

lemma fresh_geometry:
  assumes "fits tb ic" "layout tb ic = Inr (tbl, ds, db)" "1 \<le> unat tbl"
    "format tb ic now now' = Some (Inr img)"
    "unat ic * INODE_SIZE \<le> unat tbl * BS" "unat ic \<le> 8 * BS" "unat tb \<le> 8 * BS"
  shows "geometry (image_sb img) (length img)"
    and "data_region_off (image_sb img) = unat ds * BS"
proof -
  note f = fresh_image [OF assms(1-4)]
  from assms(1) have f1: "unat ic * 128 + 4095 < 2 ^ 64" by (simp add: fits_def)
  from assms(2) f1 have lt: "3 + unat tbl < unat tb" and ds: "unat ds = 3 + unat tbl"
    and db: "unat db = unat tb - unat ds"
    by (simp_all add: layout_Inr)
  show g: "geometry (image_sb img) (length img)"
    using assms(5-7) lt ds db by (simp add: geometry_def f(1,2))
  show "data_region_off (image_sb img) = unat ds * BS"
    using geometry_offsets(4) [OF g] ds by (simp add: f(2))
qed

lemma inode_at_fresh_root:
  assumes "take INODE_SIZE (drop (3 * BS) img) = inode_bytes (root_dir_inode t)"
  shows "inode_at img 0 = root_dir_inode t"
  using assms by (simp add: inode_at_def inode_of_bytes_inverse)

lemma fresh_valid:
  assumes "fits tb ic" "layout tb ic = Inr (tbl, ds, db)" "1 \<le> unat tbl"
    "format tb ic now now' = Some (Inr img)"
    "unat ic * INODE_SIZE \<le> unat tbl * BS" "unat ic \<le> 8 * BS" "unat tb \<le> 8 * BS"
  shows "valid_image img"
proof -
  note f = fresh_image [OF assms(1-4)]
  note g = fresh_geometry [OF assms]
  from assms(1) have f1: "unat ic * 128 + 4095 < 2 ^ 64" by (simp add: fits_def)
  from assms(2) f1 have lt: "3 + unat tbl < unat tb" and ds: "unat ds = 3 + unat tbl"
    and db: "unat db = unat tb - unat ds"
    by (simp_all add: layout_Inr)
  have r: "inode_at img 0 = root_dir_inode now'" using f(5) by (rule inode_at_fresh_root)
  show ?thesis
    unfolding valid_image_def sane_image_def r
    using g(1) f(3) [of 0] f(4) [of 0] lt ds db
    by (simp add: f(1,2))
qed

section \<open>The phases of the adder\<close>

declare find_free_inode.simps [simp del] find_free_blocks.simps [simp del]
  insert_dirent.simps [simp del]

lemma unat_need_blocks:
  assumes "n < 2 ^ 63"
  shows "unat (need_blocks_of (of_nat n)) = max 1 (ceil_div n BS)"
proof -
  define w :: u64 where "w = of_nat n"
  have uw: "unat w = n"
    using assms by (simp add: w_def unat_of_nat)
  have e: "w + 4096 - 1 = w + 4095" by simp
  have a: "unat (w + 4095) = n + 4095"
    using assms uw by (simp add: unat_add_lem [THEN iffD1])
  have d: "unat ((w + 4096 - 1) div 4096) = (n + 4095) div 4096"
    unfolding e by (simp only: unat_div a) simp
  have z: "(w + 4096 - 1) div 4096 = 0 \<longleftrightarrow> (n + 4095) div 4096 = 0"
    using d by (metis unat_eq_zero)
  have "need_blocks_of w = (if (w + 4096 - 1) div 4096 = 0 then 1 else (w + 4096 - 1) div 4096)"
    unfolding need_blocks_of_def Let_def ..
  then have "unat (need_blocks_of w) = (if (n + 4095) div 4096 = 0 then 1 else (n + 4095) div 4096)"
    using d z by simp
  then show ?thesis
    unfolding w_def ceil_div_def max_def by auto
qed

lemma adder_plan_Inl:
  assumes "adder_plan img fb = Some (Inl e)"
  shows "e = ImageTooSmall \<and> length img < BS \<or>
     BS \<le> length img \<and>
       (e = BadMagic \<and> magic (superblock_of_bytes (take SB_SIZE img)) \<noteq> 0x4D565346 \<or>
        magic (superblock_of_bytes (take SB_SIZE img)) = 0x4D565346 \<and>
          (e = FileTooLarge \<and> 12 < need_blocks_of (of_nat (length fb)) \<or>
           need_blocks_of (of_nat (length fb)) \<le> 12 \<and> (e = NoFreeInode \<or> e = NoFreeBlocks)))"
  using assms unfolding adder_plan_def Let_def
  by (auto simp: bind_eq_Some_conv not_less split: if_splits)

lemma adder_plan_FileTooLarge:
  "adder_plan img fb = Some (Inl FileTooLarge) \<longleftrightarrow>
     BS \<le> length img \<and> magic (superblock_of_bytes (take SB_SIZE img)) = 0x4D565346 \<and>
     12 < need_blocks_of (of_nat (length fb))"
  unfolding adder_plan_def Let_def
  by (auto simp: bind_eq_Some_conv not_less split: if_splits)

lemma add_file_plan_fail:
  "adder_plan img fb = Some (Inl e) \<Longrightarrow> add_file img hf fb now now' = Some (Inl (e, img))"
  by (simp add: add_file_def)

lemma adder_link_Inl:
  assumes "adder_link img sb fi bf hf now' = Some (Inl (e, buf))"
  shows "e = CorruptRootPointer \<and> buf = img \<or> e = NoFreeDirEntry"
  using assms unfolding adder_link_def Let_def
  by (auto simp: bind_eq_Some_conv split: if_splits option.splits)

lemma add_file_Inl:
  assumes "add_file img hf fb now now' = Some (Inl (e, buf))"
  shows "adder_plan img fb = Some (Inl e) \<and> buf = img \<or> e = CorruptRootPointer \<or> e = NoFreeDirEntry"
proof -
  from assms obtain plan where p: "adder_plan img fb = Some plan"
    by (auto simp: add_file_def bind_eq_Some_conv)
  show ?thesis
  proof (cases plan)
    case (Inl e')
    with assms p show ?thesis by (simp add: add_file_def)
  next
    case (Inr r)
    obtain sb fi bf where "r = (sb, fi, bf)" by (cases r) auto
    with assms p Inr obtain img3 where "adder_link img3 sb fi bf hf now' = Some (Inl (e, buf))"
      by (auto simp: add_file_def bind_eq_Some_conv)
    then show ?thesis using adder_link_Inl by blast
  qed
qed

lemma adder_link_Inr:
  assumes "adder_link img sb fi bf hf now' = Some (Inr img')"
  obtains root_bytes img4 where
    "peek img (inode_tbl_off sb) INODE_SIZE = Some root_bytes"
    "(ucast (direct (inode_of_bytes root_bytes) ! 0) :: u64) < data_region_blocks sb"
    "insert_dirent img (data_region_off sb + unat (direct (inode_of_bytes root_bytes) ! 0) * BS)
       (dirent_bytes (new_dirent (fi + 1) hf)) 0 = Some (Some img4)"
    "adder_commit img4 sb (inode_of_bytes root_bytes) now' = Some img'"
  using assms unfolding adder_link_def Let_def
  by (auto simp: bind_eq_Some_conv not_le split: if_splits option.splits)

lemma add_file_Inr:
  assumes "add_file img hf fb now now' = Some (Inr img')"
  obtains sb fi bf img3 where
    "adder_plan img fb = Some (Inr (sb, fi, bf))"
    "adder_alloc img sb fi bf fb now = Some img3"
    "adder_link img3 sb fi bf hf now' = Some (Inr img')"
proof -
  from assms obtain plan where p: "adder_plan img fb = Some plan"
    by (auto simp: add_file_def bind_eq_Some_conv)
  show ?thesis
  proof (cases plan)
    case (Inl e')
    with assms p show ?thesis by (simp add: add_file_def)
  next
    case (Inr r)
    obtain sb fi bf where "r = (sb, fi, bf)" by (cases r) auto
    with assms p Inr that show ?thesis
      by (auto simp: add_file_def bind_eq_Some_conv)
  qed
qed

lemma adder_plan_Inr:
  assumes "adder_plan img fb = Some (Inr (sb, fi, bf))"
  shows "BS \<le> length img" "sb = superblock_of_bytes (take SB_SIZE img)"
    "magic sb = 0x4D565346" "need_blocks_of (of_nat (length fb)) \<le> 12"
    "find_free_inode img (inode_bm_off sb) (inode_count sb) 0 = Some fi" "\<not> fi <s 0"
    "find_free_blocks img (data_bm_off sb) (data_region_blocks sb)
       (need_blocks_of (of_nat (length fb))) 0 [] = Some bf"
    "\<not> (of_nat (length bf) :: u64) < need_blocks_of (of_nat (length fb))"
  using assms unfolding adder_plan_def Let_def
  by (auto simp: bind_eq_Some_conv not_less split: if_splits)

lemma unat_inc: "(i :: u64) < n \<Longrightarrow> unat (i + 1) = Suc (unat i)"
  by unat_arith

lemma ucast_of_nat_unat: "(ucast (i :: u64) :: u32) = of_nat (unat i)"
  by simp

lemma find_free_blocks_spec:
  assumes "\<forall>j. unat i \<le> j \<and> j < unat n \<longrightarrow> bm + j div 8 < length img"
    and "length found \<le> unat need"
  shows "find_free_blocks img bm n need i found =
           Some (found @ take (unat need - length found)
                   (map of_nat (filter (\<lambda>j. bit_get img bm j = Some False) [unat i..<unat n])))"
  using assms
proof (induction img bm n need i found rule: find_free_blocks.induct)
  case (1 img bm n need i found)
  have lf: "unat (of_nat (length found) :: u64) = length found"
    using "1.prems"(2) by (metis le_unat_uoi)
  show ?case
  proof (cases "i < n \<and> (of_nat (length found) :: u64) < need")
    case False
    then consider "\<not> i < n" | "i < n" "\<not> (of_nat (length found) :: u64) < need" by blast
    then show ?thesis
    proof cases
      case 1
      then have "unat n \<le> unat i" by (simp add: word_less_nat_alt)
      with 1 show ?thesis by (simp add: find_free_blocks.simps [of img bm n need i found])
    next
      case 2
      then have "unat need \<le> length found" by (simp add: word_less_nat_alt lf)
      with 2 show ?thesis by (simp add: find_free_blocks.simps [of img bm n need i found])
    qed
  next
    case True
    then have lt: "unat i < unat n" and fl: "length found < unat need"
      by (simp_all add: word_less_nat_alt lf)
    from True have iltn: "i < n" by simp
    have inb: "bm + unat i div 8 < length img" using "1.prems"(1) lt by simp
    define b where "b = bit (img ! (bm + unat i div 8)) (unat i mod 8)"
    have g: "bit_get img bm (unat i) = Some b" using inb by (simp add: bit_get_in b_def)
    have up: "[unat i..<unat n] = unat i # [unat (i + 1)..<unat n]"
      using lt by (simp add: upt_conv_Cons unat_inc [OF iltn])
    have p1: "\<forall>j. unat (i + 1) \<le> j \<and> j < unat n \<longrightarrow> bm + j div 8 < length img"
      using "1.prems"(1) by (simp add: unat_inc [OF iltn])
    have p2: "length (if \<not> b then found @ [ucast i] else found) \<le> unat need"
      using fl by simp
    note ih = "1.IH" [OF True g p1 p2]
    have step: "find_free_blocks img bm n need i found =
                find_free_blocks img bm n need (i + 1) (if \<not> b then found @ [ucast i] else found)"
      using True g by (simp add: find_free_blocks.simps [of img bm n need i found])
    show ?thesis
    proof (cases b)
      case True
      then show ?thesis using ih step g by (simp add: up)
    next
      case False
      have "unat need - length found = Suc (unat need - Suc (length found))"
        using fl by simp
      then show ?thesis using ih step g False
        by (simp add: up)
    qed
  qed
qed

lemma find_free_inode_spec:
  assumes "\<forall>j. unat i \<le> j \<and> j < unat n \<longrightarrow> bm + j div 8 < length img"
  shows "find_free_inode img bm n i =
           Some (case filter (\<lambda>j. bit_get img bm j = Some False) [unat i..<unat n] of
                   [] \<Rightarrow> - 1 | j # _ \<Rightarrow> of_nat j)"
  using assms
proof (induction img bm n i rule: find_free_inode.induct)
  case (1 img bm n i)
  show ?case
  proof (cases "i < n")
    case False
    then have "unat n \<le> unat i" by (simp add: word_less_nat_alt)
    with False show ?thesis by (simp add: find_free_inode.simps [of img bm n i])
  next
    case True
    then have lt: "unat i < unat n" by (simp add: word_less_nat_alt)
    have inb: "bm + unat i div 8 < length img" using "1.prems" lt by simp
    define b where "b = bit (img ! (bm + unat i div 8)) (unat i mod 8)"
    have g: "bit_get img bm (unat i) = Some b" using inb by (simp add: bit_get_in b_def)
    have up: "[unat i..<unat n] = unat i # [unat (i + 1)..<unat n]"
      using lt True by (simp add: upt_conv_Cons unat_inc)
    show ?thesis
    proof (cases b)
      case False
      with True g show ?thesis
        by (simp add: find_free_inode.simps [of img bm n i] up)
    next
      case b: True
      have p1: "\<forall>j. unat (i + 1) \<le> j \<and> j < unat n \<longrightarrow> bm + j div 8 < length img"
        using "1.prems" True by (simp add: unat_inc)
      from b have nb: "\<not> \<not> b" by simp
      note ih = "1.IH" [OF True g nb p1]
      with True g b show ?thesis
        by (simp add: find_free_inode.simps [of img bm n i] up)
    qed
  qed
qed

lemma bytes_at_mono: "off \<le> off' \<Longrightarrow> off' + n' \<le> off + n \<Longrightarrow> bytes_at off' n' \<subseteq> bytes_at off n"
  by (auto simp: bytes_at_def)

lemma write_block_step:
  assumes "bit_set img data_bm (unat b) = Some img1"
    and "(if tocopy \<noteq> 0 then memcpy img1 dst src else Some img1) = Some img2"
    and "(if tocopy < BS then memset0 img2 (dst + tocopy) (BS - tocopy) else Some img2) = Some img3"
    and "length src = tocopy" "tocopy \<le> BS"
  shows "frame img img3 ({bit_at data_bm (unat b)} \<union> bytes_at dst BS)"
proof -
  have 1: "frame img img1 {bit_at data_bm (unat b)}" using assms(1) by (rule frame_bit_set)
  have 2: "frame img1 img2 (bytes_at dst BS)"
  proof (cases "tocopy \<noteq> 0")
    case True
    with assms(2) have "frame img1 img2 (bytes_at dst (length src))"
      by (simp add: frame_memcpy)
    then show ?thesis
      by (rule frame_mono) (use assms(4,5) in \<open>auto simp: bytes_at_def\<close>)
  next
    case False
    with assms(2) show ?thesis by (simp add: frame_refl)
  qed
  have 3: "frame img2 img3 (bytes_at dst BS)"
  proof (cases "tocopy < BS")
    case True
    with assms(3) have "frame img2 img3 (bytes_at (dst + tocopy) (BS - tocopy))"
      by (simp add: frame_memset0)
    then show ?thesis
      by (rule frame_mono) (use True in \<open>auto simp: bytes_at_def\<close>)
  next
    case False
    with assms(3) show ?thesis by (simp add: frame_refl)
  qed
  from frame_trans [OF frame_trans [OF 1 2] 3] show ?thesis by (simp add: Un_assoc)
qed

lemma frame_write_blocks:
  "write_blocks img data_bm data_region fb i bs = Some img' \<Longrightarrow>
   frame img img' (blocks_touched data_bm data_region bs)"
proof (induction bs arbitrary: img i)
  case Nil
  then show ?case by (simp add: frame_refl)
next
  case (Cons b bs)
  define copy_off where "copy_off = i * BS"
  define remain where "remain = (if length fb > copy_off then length fb - copy_off else 0)"
  define tocopy where "tocopy = (if remain > BS then BS else remain)"
  define dst where "dst = data_region + unat b * BS"
  from Cons.prems obtain img1 img2 img3 where
    s1: "bit_set img data_bm (unat b) = Some img1"
    and s2: "(if tocopy \<noteq> 0 then memcpy img1 dst (take tocopy (drop copy_off fb)) else Some img1)
             = Some img2"
    and s3: "(if tocopy < BS then memset0 img2 (dst + tocopy) (BS - tocopy) else Some img2)
             = Some img3"
    and s4: "write_blocks img3 data_bm data_region fb (i + 1) bs = Some img'"
    unfolding write_blocks.simps Let_def copy_off_def [symmetric] remain_def [symmetric]
      tocopy_def [symmetric] dst_def [symmetric]
    by (auto simp: bind_eq_Some_conv)
  have len: "length (take tocopy (drop copy_off fb)) = tocopy"
    by (auto simp: tocopy_def remain_def)
  have "tocopy \<le> BS" by (simp add: tocopy_def)
  from write_block_step [OF s1 s2 s3 len this]
  have f1: "frame img img3 ({bit_at data_bm (unat b)} \<union> bytes_at dst BS)" .
  have f2: "frame img3 img' (blocks_touched data_bm data_region bs)"
    using s4 by (rule Cons.IH)
  show ?case
    by (rule frame_mono [OF frame_trans [OF f1 f2]])
       (auto simp: blocks_touched_def dst_def)
qed

lemma frame_clear_blocks:
  "clear_blocks img data_bm bs = Some img' \<Longrightarrow>
   frame img img' ((\<lambda>b. bit_at data_bm (unat b)) ` set bs)"
proof (induction bs arbitrary: img)
  case Nil
  then show ?case by (simp add: frame_refl)
next
  case (Cons b bs)
  then obtain img1 where s1: "bit_clear img data_bm (unat b) = Some img1"
    and s2: "clear_blocks img1 data_bm bs = Some img'"
    by (auto simp: bind_eq_Some_conv)
  show ?case
    by (rule frame_mono [OF frame_trans [OF frame_bit_clear [OF s1] Cons.IH [OF s2]]]) auto
qed

lemma adder_alloc_Some:
  assumes "adder_alloc img sb fi bf fb now = Some img3"
  obtains img1 img2 where
    "bit_set img (inode_bm_off sb) (unat (scast fi :: u64)) = Some img1"
    "write_blocks img1 (data_bm_off sb) (data_region_off sb) fb 0 bf = Some img2"
    "memcpy img2 (inode_tbl_off sb + unat (scast fi :: u64) * INODE_SIZE)
       (inode_bytes (file_inode (of_nat (length fb)) now bf)) = Some img3"
  using assms unfolding adder_alloc_def Let_def
  by (auto simp: bind_eq_Some_conv)

lemma frame_adder_alloc:
  assumes "adder_alloc img sb fi bf fb now = Some img3"
  shows "frame img img3
           ({bit_at (inode_bm_off sb) (unat (scast fi :: u64))} \<union>
            blocks_touched (data_bm_off sb) (data_region_off sb) bf \<union>
            bytes_at (inode_tbl_off sb + unat (scast fi :: u64) * INODE_SIZE) INODE_SIZE)"
proof -
  from assms obtain img1 img2 where
    s1: "bit_set img (inode_bm_off sb) (unat (scast fi :: u64)) = Some img1"
    and s2: "write_blocks img1 (data_bm_off sb) (data_region_off sb) fb 0 bf = Some img2"
    and s3: "memcpy img2 (inode_tbl_off sb + unat (scast fi :: u64) * INODE_SIZE)
       (inode_bytes (file_inode (of_nat (length fb)) now bf)) = Some img3"
    by (rule adder_alloc_Some)
  from frame_trans [OF frame_trans [OF frame_bit_set [OF s1] frame_write_blocks [OF s2]]
      frame_memcpy [OF s3]]
  show ?thesis by simp
qed

lemma adder_alloc_slot:
  assumes "adder_alloc img sb fi bf fb now = Some img3"
  shows "peek img3 (inode_tbl_off sb + unat (scast fi :: u64) * INODE_SIZE) INODE_SIZE
         = Some (inode_bytes (file_inode (of_nat (length fb)) now bf))"
proof -
  from assms obtain img2 where
    "memcpy img2 (inode_tbl_off sb + unat (scast fi :: u64) * INODE_SIZE)
       (inode_bytes (file_inode (of_nat (length fb)) now bf)) = Some img3"
    by (rule adder_alloc_Some)
  from peek_memcpy_same [OF this] show ?thesis by simp
qed

lemma insert_dirent_Some:
  assumes "insert_dirent img rb nde off = Some (Some img')" "off = DIRENT_SIZE * s0"
  shows "\<exists>slot. s0 \<le> slot \<and> slot < 64 \<and>
           memcpy img (rb + DIRENT_SIZE * slot) nde = Some img' \<and>
           (\<exists>bs. peek img (rb + DIRENT_SIZE * slot) 4 = Some bs \<and> (le_word bs :: u32) = 0) \<and>
           (\<forall>s. s0 \<le> s \<and> s < slot \<longrightarrow>
              (\<exists>bs. peek img (rb + DIRENT_SIZE * s) 4 = Some bs \<and> (le_word bs :: u32) \<noteq> 0))"
  using assms
proof (induction img rb nde off arbitrary: s0 rule: insert_dirent.induct)
  case (1 img rb nde off)
  from "1.prems"(1) have inr: "off + DIRENT_SIZE \<le> BS"
    by (simp add: insert_dirent.simps [of img rb nde off] split: if_splits)
  with "1.prems"(1) obtain bs where p: "peek img (rb + off) 4 = Some bs"
    by (auto simp: insert_dirent.simps [of img rb nde off] split: option.splits)
  show ?case
  proof (cases "(le_word bs :: u32) = 0")
    case True
    with "1.prems"(1) inr p have "memcpy img (rb + off) nde = Some img'"
      by (auto simp: insert_dirent.simps [of img rb nde off])
    moreover have "s0 < 64" using inr "1.prems"(2) by simp
    ultimately show ?thesis
      using True p "1.prems"(2) by (intro exI [of _ s0]) auto
  next
    case False
    with "1.prems"(1) inr p
    have r: "insert_dirent img rb nde (off + DIRENT_SIZE) = Some (Some img')"
      by (auto simp: insert_dirent.simps [of img rb nde off])
    have o: "off + DIRENT_SIZE = DIRENT_SIZE * Suc s0" using "1.prems"(2) by simp
    from "1.IH" [OF inr p False r o] obtain slot where
      sl: "Suc s0 \<le> slot" "slot < 64" "memcpy img (rb + DIRENT_SIZE * slot) nde = Some img'"
      "\<exists>bs. peek img (rb + DIRENT_SIZE * slot) 4 = Some bs \<and> (le_word bs :: u32) = 0"
      "\<forall>s. Suc s0 \<le> s \<and> s < slot \<longrightarrow>
              (\<exists>bs. peek img (rb + DIRENT_SIZE * s) 4 = Some bs \<and> (le_word bs :: u32) \<noteq> 0)"
      by blast
    have "\<exists>bs. peek img (rb + DIRENT_SIZE * s) 4 = Some bs \<and> (le_word bs :: u32) \<noteq> 0"
      if "s0 \<le> s" "s < slot" for s
    proof (cases "s = s0")
      case True
      with p False "1.prems"(2) show ?thesis by simp
    next
      case False
      with that sl(5) show ?thesis by (simp add: Suc_le_eq)
    qed
    with sl show ?thesis by (intro exI [of _ slot]) auto
  qed
qed

lemma insert_dirent_full:
  assumes "insert_dirent img rb nde off = Some None" "off = DIRENT_SIZE * s0" "s0 \<le> 64"
  shows "\<forall>s. s0 \<le> s \<and> s < 64 \<longrightarrow>
           (\<exists>bs. peek img (rb + DIRENT_SIZE * s) 4 = Some bs \<and> (le_word bs :: u32) \<noteq> 0)"
  using assms
proof (induction img rb nde off arbitrary: s0 rule: insert_dirent.induct)
  case (1 img rb nde off)
  show ?case
  proof (cases "off + DIRENT_SIZE \<le> BS")
    case False
    with "1.prems"(2,3) have "s0 = 64" by simp
    then show ?thesis by auto
  next
    case True
    with "1.prems"(1) obtain bs where p: "peek img (rb + off) 4 = Some bs"
      by (auto simp: insert_dirent.simps [of img rb nde off] split: option.splits)
    with "1.prems"(1) True have nz: "(le_word bs :: u32) \<noteq> 0"
      by (auto simp: insert_dirent.simps [of img rb nde off] split: if_splits)
    with "1.prems"(1) True p
    have r: "insert_dirent img rb nde (off + DIRENT_SIZE) = Some None"
      by (auto simp: insert_dirent.simps [of img rb nde off])
    have o: "off + DIRENT_SIZE = DIRENT_SIZE * Suc s0" using "1.prems"(2) by simp
    have "Suc s0 \<le> 64" using True "1.prems"(2) by simp
    from "1.IH" [OF True p nz r o this]
    have ih: "\<forall>s. Suc s0 \<le> s \<and> s < 64 \<longrightarrow>
           (\<exists>bs. peek img (rb + DIRENT_SIZE * s) 4 = Some bs \<and> (le_word bs :: u32) \<noteq> 0)" .
    show ?thesis
    proof (intro allI impI)
      fix s assume s: "s0 \<le> s \<and> s < 64"
      show "\<exists>bs. peek img (rb + DIRENT_SIZE * s) 4 = Some bs \<and> (le_word bs :: u32) \<noteq> 0"
      proof (cases "s = s0")
        case True
        with p nz "1.prems"(2) show ?thesis by simp
      next
        case False
        with s ih show ?thesis by (simp add: Suc_le_eq)
      qed
    qed
  qed
qed

lemma adder_commit_Some:
  assumes "adder_commit img sb root_ino now' = Some img'"
  obtains img1 where
    "memcpy img (inode_tbl_off sb) (inode_bytes (bump_root root_ino)) = Some img1"
    "memcpy img1 0 (superblock_bytes (superblock_crc_finalize (sb\<lparr> mtime_epoch := now' \<rparr>)))
       = Some img'"
  using assms unfolding adder_commit_def Let_def
  by (auto simp: bind_eq_Some_conv)

lemma superblock_bytes_split:
  "superblock_bytes sb =
     take 100 (superblock_bytes sb) @ le_bytes 8 (mtime_epoch sb) @ le_bytes 4 (flags sb) @
     le_bytes 4 (checksum sb)"
  by (simp add: superblock_bytes_def)

lemma superblock_bytes_head_cong:
  assumes "magic sb' = magic sb" "version sb' = version sb" "block_size sb' = block_size sb"
    "total_blocks sb' = total_blocks sb" "inode_count sb' = inode_count sb"
    "inode_bitmap_start sb' = inode_bitmap_start sb"
    "inode_bitmap_blocks sb' = inode_bitmap_blocks sb"
    "data_bitmap_start sb' = data_bitmap_start sb"
    "data_bitmap_blocks sb' = data_bitmap_blocks sb"
    "inode_table_start sb' = inode_table_start sb"
    "inode_table_blocks sb' = inode_table_blocks sb"
    "data_region_start sb' = data_region_start sb"
    "data_region_blocks sb' = data_region_blocks sb" "root_inode sb' = root_inode sb"
  shows "take 100 (superblock_bytes sb') = take 100 (superblock_bytes sb)"
  using assms by (simp add: superblock_bytes_def)

lemma superblock_bytes_touch:
  assumes "a < 100 \<or> 108 \<le> a \<and> a < 112"
  shows "superblock_bytes (superblock_crc_finalize (sb\<lparr> mtime_epoch := t \<rparr>)) ! a
         = superblock_bytes sb ! a"
proof -
  let ?sb' = "superblock_crc_finalize (sb\<lparr> mtime_epoch := t \<rparr>)"
  have h: "take 100 (superblock_bytes ?sb') = take 100 (superblock_bytes sb)"
    by (rule superblock_bytes_head_cong) simp_all
  have l: "length (take 100 (superblock_bytes sb)) = 100" by simp
  have 1: "superblock_bytes ?sb' =
       take 100 (superblock_bytes sb) @ le_bytes 8 t @ le_bytes 4 (flags sb) @
       le_bytes 4 (checksum ?sb')"
    using superblock_bytes_split [of ?sb'] by (simp only: h) simp
  have 2: "superblock_bytes sb =
       take 100 (superblock_bytes sb) @ le_bytes 8 (mtime_epoch sb) @ le_bytes 4 (flags sb) @
       le_bytes 4 (checksum sb)"
    by (rule superblock_bytes_split)
  have "(take 100 (superblock_bytes sb) @ le_bytes 8 t @ le_bytes 4 (flags sb) @
       le_bytes 4 (checksum ?sb')) ! a
      = (take 100 (superblock_bytes sb) @ le_bytes 8 (mtime_epoch sb) @ le_bytes 4 (flags sb) @
       le_bytes 4 (checksum sb)) ! a"
    using assms by (auto simp only: nth_append l length_le_bytes length_append split: if_splits)
  then show ?thesis using 1 2 by simp
qed

lemma unat_ucast_32_64: "unat (ucast (x :: u32) :: u64) = unat x"
proof -
  have "unat x < 2 ^ 32" using unsigned_less [of x, where 'a = nat] by simp
  then have "unat x < 18446744073709551616" by simp
  then show ?thesis by (simp add: unsigned_ucast_eq take_bit_nat_eq_self_iff)
qed

lemma add_file_frame:
  assumes run: "add_file img hf fb now now' = Some (Inr img')"
  shows "\<exists>sb fi bf root_rel slot.
           sb = superblock_of_bytes (take SB_SIZE img) \<and>
           adder_plan img fb = Some (Inr (sb, fi, bf)) \<and>
           root_rel < unat (data_region_blocks sb) \<and> slot < 64 \<and>
           frame img img' (touched sb (unat (scast fi :: u64)) bf root_rel slot) \<and>
           superblock_of_bytes (take SB_SIZE img')
             = superblock_crc_finalize (sb\<lparr> mtime_epoch := now' \<rparr>)"
proof -
  from run obtain sb fi bf img3 where
    plan: "adder_plan img fb = Some (Inr (sb, fi, bf))"
    and alloc: "adder_alloc img sb fi bf fb now = Some img3"
    and link: "adder_link img3 sb fi bf hf now' = Some (Inr img')"
    by (rule add_file_Inr)
  from link obtain root_bytes img4 where
    rb: "peek img3 (inode_tbl_off sb) INODE_SIZE = Some root_bytes"
    and rr: "(ucast (direct (inode_of_bytes root_bytes) ! 0) :: u64) < data_region_blocks sb"
    and ins: "insert_dirent img3
       (data_region_off sb + unat (direct (inode_of_bytes root_bytes) ! 0) * BS)
       (dirent_bytes (new_dirent (fi + 1) hf)) 0 = Some (Some img4)"
    and com: "adder_commit img4 sb (inode_of_bytes root_bytes) now' = Some img'"
    by (rule adder_link_Inr)
  define root_rel where "root_rel = unat (direct (inode_of_bytes root_bytes) ! 0)"
  define fin where "fin = unat (scast fi :: u64)"
  let ?sb' = "superblock_crc_finalize (sb\<lparr> mtime_epoch := now' \<rparr>)"
  from plan have big: "BS \<le> length img" and sb: "sb = superblock_of_bytes (take SB_SIZE img)"
    by (rule adder_plan_Inr)+
  from rr have rrn: "root_rel < unat (data_region_blocks sb)"
    by (simp add: root_rel_def word_less_nat_alt unat_ucast_32_64)
  from insert_dirent_Some [OF ins, of 0] obtain slot where
    slot: "slot < 64"
    and w: "memcpy img3 (data_region_off sb + root_rel * BS + DIRENT_SIZE * slot)
              (dirent_bytes (new_dirent (fi + 1) hf)) = Some img4"
    by (auto simp: root_rel_def)
  from com obtain img5 where
    c1: "memcpy img4 (inode_tbl_off sb) (inode_bytes (bump_root (inode_of_bytes root_bytes)))
           = Some img5"
    and c2: "memcpy img5 0 (superblock_bytes ?sb') = Some img'"
    by (rule adder_commit_Some)
  have f3: "frame img img3
           ({bit_at (inode_bm_off sb) fin} \<union>
            blocks_touched (data_bm_off sb) (data_region_off sb) bf \<union>
            bytes_at (inode_tbl_off sb + fin * INODE_SIZE) INODE_SIZE)"
    unfolding fin_def using alloc by (rule frame_adder_alloc)
  have f4: "frame img3 img4
           (bytes_at (data_region_off sb + root_rel * BS + DIRENT_SIZE * slot) DIRENT_SIZE)"
    using frame_memcpy [OF w] by simp
  have f5: "frame img4 img5 (bytes_at (inode_tbl_off sb) INODE_SIZE)"
    using frame_memcpy [OF c1] by simp
  have f35: "frame img img5 (touched sb fin bf root_rel slot)"
    by (rule frame_mono [OF frame_trans [OF frame_trans [OF f3 f4] f5]])
       (auto simp: touched_def blocks_touched_def)
  have len5: "length img5 = length img" using f35 by (rule frame_length)
  have len': "length img' = length img" using memcpy_length [OF c2] len5 by simp
  have sbb: "superblock_bytes sb = take SB_SIZE img"
    unfolding sb using big by (simp add: superblock_bytes_inverse)
  have "(a, k) \<in> touched sb fin bf root_rel slot"
    if a: "a < length img" and d: "bit (img' ! a) k \<noteq> bit (img ! a) k" for a k
  proof (cases "a < SB_SIZE")
    case False
    then have "img' ! a = img5 ! a"
      using memcpy_nth [OF c2, of a] a len5 by simp
    with d have "bit (img5 ! a) k \<noteq> bit (img ! a) k" by simp
    with f35 a show ?thesis by (auto simp: frame_def)
  next
    case True
    then have n: "img' ! a = superblock_bytes ?sb' ! a"
      using memcpy_nth [OF c2, of a] a len5 by simp
    show ?thesis
    proof (cases "a < 100 \<or> 108 \<le> a \<and> a < 112")
      case True
      then have "superblock_bytes ?sb' ! a = superblock_bytes sb ! a"
        by (rule superblock_bytes_touch)
      also have "\<dots> = img ! a" using True by (auto simp: sbb)
      finally show ?thesis using d n by simp
    next
      case False
      with True show ?thesis by (auto simp: touched_def bytes_at_def)
    qed
  qed
  then have fr: "frame img img' (touched sb fin bf root_rel slot)"
    using len' by (auto simp: frame_def)
  have "take SB_SIZE img' = superblock_bytes ?sb'"
    using peek_memcpy_same [OF c2] by (simp add: peek_Some)
  then have "superblock_of_bytes (take SB_SIZE img') = ?sb'"
    by (simp add: superblock_of_bytes_inverse)
  with sb plan rrn slot fr show ?thesis
    unfolding fin_def by blast
qed

section \<open>The adder on a valid image\<close>

lemma free_list_props:
  "j \<in> set (free_list img bm n) \<longleftrightarrow> j < n \<and> bit_get img bm j = Some False"
  by (auto simp: free_list_def)

lemma sorted_free_list: "sorted (free_list img bm n)" "distinct (free_list img bm n)"
  by (simp_all add: free_list_def sorted_wrt_filter)

lemma unat_of_nat_u32: "j < 2 ^ 32 \<Longrightarrow> unat (of_nat j :: u32) = j"
  by (simp add: unat_of_nat)

text \<open>What the two scans yield on a valid image.\<close>

lemma adder_plan_valid:
  assumes v: "sane_image img"
    and plan: "adder_plan img fb = Some (Inr (sb, fi, bf))"
  shows "sb = image_sb img"
    and "free_list img BS (unat (inode_count sb)) \<noteq> []"
    and "unat (scast fi :: u64) = hd (free_list img BS (unat (inode_count sb)))"
    and "fi + 1 = of_nat (hd (free_list img BS (unat (inode_count sb))) + 1)"
    and "map unat bf = take (unat (need_blocks_of (of_nat (length fb))))
                         (free_list img (2 * BS) (unat (data_region_blocks sb)))"
    and "length bf = unat (need_blocks_of (of_nat (length fb)))"
proof -
  note p = adder_plan_Inr [OF plan]
  note vd = sane_imageD [OF v]
  show sb: "sb = image_sb img" using p(2) by (simp add: image_sb_def)
  have g: "geometry sb (length img)" using vd(3) sb by simp
  note o = geometry_offsets [OF g]
  note r = geometry_regions [OF g]
  note b = geometry_bounds [OF g]
  have big: "3 * BS \<le> length img" using r(5,6) by simp
  have ib: "\<forall>j. unat (0 :: u64) \<le> j \<and> j < unat (inode_count sb) \<longrightarrow> BS + j div 8 < length img"
    using r(1) big by fastforce
  from find_free_inode_spec [OF ib] p(5)
  have fi: "fi = (case free_list img BS (unat (inode_count sb)) of
                    [] \<Rightarrow> - 1 | j # _ \<Rightarrow> of_nat j)"
    by (simp add: o free_list_def)
  show ne: "free_list img BS (unat (inode_count sb)) \<noteq> []"
    using fi p(6) minus_one_sless by (auto split: list.splits)
  then obtain j js where l: "free_list img BS (unat (inode_count sb)) = j # js"
    by (cases "free_list img BS (unat (inode_count sb))") auto
  then have "j \<in> set (free_list img BS (unat (inode_count sb)))" by simp
  then have "j < unat (inode_count sb)" by (simp add: free_list_props)
  with b(2) have j31: "j < 2 ^ 31" by simp
  from fi l have fij: "fi = of_nat j" by simp
  show "unat (scast fi :: u64) = hd (free_list img BS (unat (inode_count sb)))"
    unfolding fij l using unat_scast_small(1) [OF j31] by simp
  show "fi + 1 = of_nat (hd (free_list img BS (unat (inode_count sb))) + 1)"
    unfolding fij l by simp
  have db: "\<forall>j. unat (0 :: u64) \<le> j \<and> j < unat (data_region_blocks sb) \<longrightarrow>
              2 * BS + j div 8 < length img"
    using r(2) big by fastforce
  from find_free_blocks_spec [OF db, of "[]" "need_blocks_of (of_nat (length fb))"] p(7)
  have bf: "bf = take (unat (need_blocks_of (of_nat (length fb))))
                   (map of_nat (free_list img (2 * BS) (unat (data_region_blocks sb))))"
    by (simp add: o free_list_def)
  have "unat (of_nat i :: u32) = i"
    if "i \<in> set (free_list img (2 * BS) (unat (data_region_blocks sb)))" for i
  proof -
    from that have "i < unat (data_region_blocks sb)" by (simp add: free_list_props)
    with b(3) have "i < 2 ^ 32" by simp
    then show ?thesis by (rule unat_of_nat_u32)
  qed
  then have m: "map unat (map of_nat (free_list img (2 * BS) (unat (data_region_blocks sb))) :: u32 list)
             = free_list img (2 * BS) (unat (data_region_blocks sb))"
    by (simp add: map_idI)
  show mb: "map unat bf = take (unat (need_blocks_of (of_nat (length fb))))
                         (free_list img (2 * BS) (unat (data_region_blocks sb)))"
    unfolding bf by (simp only: take_map [symmetric] m)
  have le: "length bf \<le> unat (need_blocks_of (of_nat (length fb)))"
    unfolding bf by simp
  then have "unat (of_nat (length bf) :: u64) = length bf" by (metis le_unat_uoi)
  with p(8) have "unat (need_blocks_of (of_nat (length fb))) \<le> length bf"
    by (simp add: word_less_nat_alt)
  with le show "length bf = unat (need_blocks_of (of_nat (length fb)))" by simp
qed

lemma write_blocks_ok:
  assumes "\<forall>b \<in> set bs. dbm + unat b div 8 < length img \<and> dreg + unat b * BS + BS \<le> length img"
  shows "\<exists>img'. write_blocks img dbm dreg fb i bs = Some img'"
  using assms
proof (induction bs arbitrary: img i)
  case Nil
  show ?case by simp
next
  case (Cons b bs)
  define copy_off where "copy_off = i * BS"
  define remain where "remain = (if length fb > copy_off then length fb - copy_off else 0)"
  define tocopy where "tocopy = (if remain > BS then BS else remain)"
  define dst where "dst = dreg + unat b * BS"
  from Cons.prems have b1: "dbm + unat b div 8 < length img" and b2: "dst + BS \<le> length img"
    by (simp_all add: dst_def)
  obtain img1 where s1: "bit_set img dbm (unat b) = Some img1"
    using bit_set_ok [OF b1] by blast
  have l1: "length img1 = length img" using s1 by (rule bit_set_length)
  have len: "length (take tocopy (drop copy_off fb)) = tocopy"
    by (auto simp: tocopy_def remain_def)
  have tb: "tocopy \<le> BS" by (simp add: tocopy_def)
  obtain img2 where s2: "(if tocopy \<noteq> 0 then memcpy img1 dst (take tocopy (drop copy_off fb))
                          else Some img1) = Some img2"
    using memcpy_ok [of dst "take tocopy (drop copy_off fb)" img1] b2 l1 tb
    by (cases "tocopy \<noteq> 0") (auto simp: len simp del: length_take)
  have l2: "length img2 = length img"
    using s2 l1 by (auto dest: memcpy_length split: if_splits)
  obtain img3 where s3: "(if tocopy < BS then memset0 img2 (dst + tocopy) (BS - tocopy)
                          else Some img2) = Some img3"
    using memset0_ok [of "dst + tocopy" "BS - tocopy" img2] b2 l2 tb
    by (cases "tocopy < BS") auto
  have l3: "length img3 = length img"
    using s3 l2 by (auto dest: memset0_length split: if_splits)
  have "\<forall>b \<in> set bs. dbm + unat b div 8 < length img3 \<and> dreg + unat b * BS + BS \<le> length img3"
    using Cons.prems l3 by simp
  from Cons.IH [OF this, of "i + 1"] obtain img' where
    s4: "write_blocks img3 dbm dreg fb (i + 1) bs = Some img'" by blast
  have "write_blocks img dbm dreg fb i (b # bs) = Some img'"
    unfolding write_blocks.simps Let_def copy_off_def [symmetric] remain_def [symmetric]
      tocopy_def [symmetric] dst_def [symmetric]
    using s1 s2 s3 s4 by (simp add: bind_eq_Some_conv)
  then show ?case by blast
qed

lemma clear_blocks_ok:
  assumes "\<forall>b \<in> set bs. dbm + unat b div 8 < length img"
  shows "\<exists>img'. clear_blocks img dbm bs = Some img'"
  using assms
proof (induction bs arbitrary: img)
  case Nil
  show ?case by simp
next
  case (Cons b bs)
  then have "dbm + unat b div 8 < length img" by simp
  then obtain img1 where s1: "bit_clear img dbm (unat b) = Some img1"
    by (auto simp: bit_clear_def)
  have "length img1 = length img" using s1 by (rule bit_clear_length)
  with Cons.prems have "\<forall>b \<in> set bs. dbm + unat b div 8 < length img1" by simp
  from Cons.IH [OF this] s1 show ?case by (simp add: bind_eq_Some_conv)
qed

lemma insert_dirent_total:
  assumes "rb + BS \<le> length img" "length nde = DIRENT_SIZE"
  shows "insert_dirent img rb nde off \<noteq> None"
  using assms
proof (induction img rb nde off rule: insert_dirent.induct)
  case (1 img rb nde off)
  show ?case
  proof (cases "off + DIRENT_SIZE \<le> BS")
    case False
    then show ?thesis by (simp add: insert_dirent.simps [of img rb nde off])
  next
    case True
    with "1.prems" have p: "peek img (rb + off) 4 = Some (take 4 (drop (rb + off) img))"
      by (simp add: peek_def)
    show ?thesis
    proof (cases "(le_word (take 4 (drop (rb + off) img)) :: u32) = 0")
      case z: True
      from True "1.prems" have "rb + off + length nde \<le> length img" by simp
      then obtain img' where "memcpy img (rb + off) nde = Some img'"
        using memcpy_ok by blast
      with True p z show ?thesis by (simp add: insert_dirent.simps [of img rb nde off])
    next
      case False
      from "1.IH" [OF True p False "1.prems"] True p False show ?thesis
        by (simp add: insert_dirent.simps [of img rb nde off])
    qed
  qed
qed

lemma write_block_data_frame:
  assumes "(if tocopy \<noteq> 0 then memcpy img1 dst src else Some img1) = Some img2"
    and "(if tocopy < BS then memset0 img2 (dst + tocopy) (BS - tocopy) else Some img2) = Some img3"
    and "length src = tocopy" "tocopy \<le> BS"
  shows "frame img1 img3 (bytes_at dst BS)"
proof -
  have 2: "frame img1 img2 (bytes_at dst BS)"
  proof (cases "tocopy \<noteq> 0")
    case True
    with assms(1) have "frame img1 img2 (bytes_at dst (length src))"
      by (simp add: frame_memcpy)
    then show ?thesis
      by (rule frame_mono) (use assms(3,4) in \<open>auto simp: bytes_at_def\<close>)
  next
    case False
    with assms(1) show ?thesis by (simp add: frame_refl)
  qed
  have 3: "frame img2 img3 (bytes_at dst BS)"
  proof (cases "tocopy < BS")
    case True
    with assms(2) have "frame img2 img3 (bytes_at (dst + tocopy) (BS - tocopy))"
      by (simp add: frame_memset0)
    then show ?thesis
      by (rule frame_mono) (use True in \<open>auto simp: bytes_at_def\<close>)
  next
    case False
    with assms(2) show ?thesis by (simp add: frame_refl)
  qed
  from frame_trans [OF 2 3] show ?thesis by simp
qed

lemma bit_get_write_blocks:
  assumes "write_blocks img dbm dreg fb i bs = Some img'"
    and "\<forall>b \<in> set bs. dbm + j div 8 < dreg + unat b * BS \<or> dreg + unat b * BS + BS \<le> dbm + j div 8"
  shows "bit_get img' dbm j = map_option (\<lambda>x. x \<or> j \<in> unat ` set bs) (bit_get img dbm j)"
  using assms
proof (induction bs arbitrary: img i)
  case Nil
  then show ?case by (simp add: option.map_ident)
next
  case (Cons b bs)
  define copy_off where "copy_off = i * BS"
  define remain where "remain = (if length fb > copy_off then length fb - copy_off else 0)"
  define tocopy where "tocopy = (if remain > BS then BS else remain)"
  define dst where "dst = dreg + unat b * BS"
  from Cons.prems(1) obtain img1 img2 img3 where
    s1: "bit_set img dbm (unat b) = Some img1"
    and s2: "(if tocopy \<noteq> 0 then memcpy img1 dst (take tocopy (drop copy_off fb)) else Some img1)
             = Some img2"
    and s3: "(if tocopy < BS then memset0 img2 (dst + tocopy) (BS - tocopy) else Some img2)
             = Some img3"
    and s4: "write_blocks img3 dbm dreg fb (i + 1) bs = Some img'"
    unfolding write_blocks.simps Let_def copy_off_def [symmetric] remain_def [symmetric]
      tocopy_def [symmetric] dst_def [symmetric]
    by (auto simp: bind_eq_Some_conv)
  have len: "length (take tocopy (drop copy_off fb)) = tocopy"
    by (auto simp: tocopy_def remain_def)
  have tb: "tocopy \<le> BS" by (simp add: tocopy_def)
  have f: "frame img1 img3 (bytes_at dst BS)"
    by (rule write_block_data_frame [OF s2 s3 len tb])
  have "bit_at dbm j \<notin> bytes_at dst BS"
    using Cons.prems(2) by (auto simp: bit_at_def bytes_at_def dst_def)
  then have g3: "bit_get img3 dbm j = bit_get img1 dbm j"
    by (rule bit_get_frame [OF f])
  have g1: "bit_get img1 dbm j = map_option (\<lambda>x. x \<or> j = unat b) (bit_get img dbm j)"
    by (rule bit_get_bit_set [OF s1])
  have "\<forall>b \<in> set bs. dbm + j div 8 < dreg + unat b * BS \<or> dreg + unat b * BS + BS \<le> dbm + j div 8"
    using Cons.prems(2) by simp
  from Cons.IH [OF s4 this]
  have "bit_get img' dbm j = map_option (\<lambda>x. x \<or> j \<in> unat ` set bs) (bit_get img3 dbm j)" .
  then show ?case
    unfolding g3 g1 by (cases "bit_get img dbm j") auto
qed

text \<open>The chosen inode and blocks on an image with a sound layout.\<close>

lemma adder_plan_chosen:
  assumes v: "sane_image img"
    and plan: "adder_plan img fb = Some (Inr (sb, fi, bf))"
  shows "0 < unat (scast fi :: u64)" "unat (scast fi :: u64) < unat (inode_count sb)"
    and "bit_get img BS (unat (scast fi :: u64)) = Some False"
    and "\<forall>b \<in> set bf. unat b < unat (data_region_blocks sb) \<and>
           bit_get img (2 * BS) (unat b) = Some False"
proof -
  note p = adder_plan_valid [OF v plan]
  note vd = sane_imageD [OF v]
  define fl where "fl = free_list img BS (unat (inode_count sb))"
  from p(2) have "hd fl \<in> set fl" by (simp add: fl_def)
  then have h: "hd fl < unat (inode_count sb)" "bit_get img BS (hd fl) = Some False"
    by (simp_all add: fl_def free_list_props)
  show "unat (scast fi :: u64) < unat (inode_count sb)"
    and "bit_get img BS (unat (scast fi :: u64)) = Some False"
    using h p(3) by (simp_all add: fl_def)
  show "0 < unat (scast fi :: u64)"
  proof (rule ccontr)
    assume "\<not> 0 < unat (scast fi :: u64)"
    then have "hd fl = 0" using p(3) by (simp add: fl_def)
    with h(2) vd(4) show False by simp
  qed
  show "\<forall>b \<in> set bf. unat b < unat (data_region_blocks sb) \<and>
           bit_get img (2 * BS) (unat b) = Some False"
  proof
    fix b assume "b \<in> set bf"
    then have "unat b \<in> set (map unat bf)" by simp
    then have "unat b \<in> set (free_list img (2 * BS) (unat (data_region_blocks sb)))"
      unfolding p(5) by (rule in_set_takeD)
    then show "unat b < unat (data_region_blocks sb) \<and>
           bit_get img (2 * BS) (unat b) = Some False"
      by (simp add: free_list_props)
  qed
qed

lemma adder_plan_not_root:
  assumes v: "valid_image img"
    and plan: "adder_plan img fb = Some (Inr (sb, fi, bf))"
  shows "\<forall>b \<in> set bf. unat b \<noteq> unat (direct (inode_at img 0) ! 0)"
  using adder_plan_chosen(4) [OF valid_imageD(7) [OF v] plan] valid_imageD(6) [OF v]
  by auto

lemma valid_alloc:
  assumes v: "sane_image img"
    and plan: "adder_plan img fb = Some (Inr (sb, fi, bf))"
  shows "\<exists>img3. adder_alloc img sb fi bf fb now = Some img3"
    and "adder_alloc img sb fi bf fb now = Some img3 \<Longrightarrow>
         length img3 = length img \<and>
         frame img img3
           ({bit_at BS (unat (scast fi :: u64))} \<union>
            blocks_touched (2 * BS) (data_region_off sb) bf \<union>
            bytes_at (3 * BS + unat (scast fi :: u64) * INODE_SIZE) INODE_SIZE) \<and>
         (\<forall>j < 8 * BS. bit_get img3 BS j
             = map_option (\<lambda>x. x \<or> j = unat (scast fi :: u64)) (bit_get img BS j)) \<and>
         (\<forall>j < 8 * BS. bit_get img3 (2 * BS) j
             = map_option (\<lambda>x. x \<or> j \<in> unat ` set bf) (bit_get img (2 * BS) j)) \<and>
         take INODE_SIZE (drop (3 * BS + unat (scast fi :: u64) * INODE_SIZE) img3)
           = inode_bytes (file_inode (of_nat (length fb)) now bf)"
proof -
  note p = adder_plan_valid [OF v plan]
  note c = adder_plan_chosen [OF v plan]
  note vd = sane_imageD [OF v]
  have g: "geometry sb (length img)" using vd(3) p(1) by simp
  note o = geometry_offsets [OF g]
  note r = geometry_regions [OF g]
  define fin where "fin = unat (scast fi :: u64)"
  define D where "D = data_region_off sb"
  note cf = c(1,2,3) [folded fin_def]
  have DL: "3 * BS \<le> D" "D \<le> length img" using r(5,6) by (simp_all add: D_def)
  have slot: "3 * BS + fin * INODE_SIZE + INODE_SIZE \<le> D"
    using r(3) [OF cf(2)] by (simp add: D_def)
  have blk: "\<forall>b \<in> set bf. 2 * BS + unat b div 8 < 3 * BS \<and> D + unat b * BS + BS \<le> length img"
    using c(4) r(2,4) by (auto simp: D_def)
  have i1: "BS + fin div 8 < 2 * BS" using r(1) [OF cf(2)] .
  obtain img1 where s1: "bit_set img BS fin = Some img1"
    using bit_set_ok [of BS fin img] i1 DL by auto
  have l1: "length img1 = length img" using s1 by (rule bit_set_length)
  obtain img2 where s2: "write_blocks img1 (2 * BS) D fb 0 bf = Some img2"
    using write_blocks_ok [of bf "2 * BS" img1 D fb 0] blk DL l1 by fastforce
  have l2: "length img2 = length img"
    using frame_length [OF frame_write_blocks [OF s2]] l1 by simp
  obtain img3' where s3: "memcpy img2 (3 * BS + fin * INODE_SIZE)
        (inode_bytes (file_inode (of_nat (length fb)) now bf)) = Some img3'"
    using memcpy_ok [of "3 * BS + fin * INODE_SIZE"
        "inode_bytes (file_inode (of_nat (length fb)) now bf)" img2] slot DL l2 by auto
  have run: "adder_alloc img sb fi bf fb now = Some img3'"
    unfolding adder_alloc_def Let_def o(1,2,3) fin_def [symmetric] D_def [symmetric]
    using s1 s2 s3 by simp
  then show "\<exists>img3. adder_alloc img sb fi bf fb now = Some img3" by blast
  show "length img3 = length img \<and>
         frame img img3
           ({bit_at BS (unat (scast fi :: u64))} \<union>
            blocks_touched (2 * BS) (data_region_off sb) bf \<union>
            bytes_at (3 * BS + unat (scast fi :: u64) * INODE_SIZE) INODE_SIZE) \<and>
         (\<forall>j < 8 * BS. bit_get img3 BS j
             = map_option (\<lambda>x. x \<or> j = unat (scast fi :: u64)) (bit_get img BS j)) \<and>
         (\<forall>j < 8 * BS. bit_get img3 (2 * BS) j
             = map_option (\<lambda>x. x \<or> j \<in> unat ` set bf) (bit_get img (2 * BS) j)) \<and>
         take INODE_SIZE (drop (3 * BS + unat (scast fi :: u64) * INODE_SIZE) img3)
           = inode_bytes (file_inode (of_nat (length fb)) now bf)"
    if a: "adder_alloc img sb fi bf fb now = Some img3"
  proof -
    from a run have e: "img3 = img3'" by simp
    have fr: "frame img img3
           ({bit_at BS fin} \<union> blocks_touched (2 * BS) D bf \<union>
            bytes_at (3 * BS + fin * INODE_SIZE) INODE_SIZE)"
      using frame_adder_alloc [OF a] by (simp add: o(1,2,3) fin_def D_def)
    have l3: "length img3 = length img" using fr by (rule frame_length)
    have f2: "frame img1 img2 (blocks_touched (2 * BS) D bf)"
      using s2 by (rule frame_write_blocks)
    have f3: "frame img2 img3 (bytes_at (3 * BS + fin * INODE_SIZE) INODE_SIZE)"
      using frame_memcpy [OF s3] e by simp
    have f23: "frame img1 img3 (blocks_touched (2 * BS) D bf \<union>
                 bytes_at (3 * BS + fin * INODE_SIZE) INODE_SIZE)"
      by (rule frame_trans [OF f2 f3])
    have b1: "bit_get img3 BS j = map_option (\<lambda>x. x \<or> j = fin) (bit_get img BS j)"
      if "j < 8 * BS" for j
    proof -
      from that have "BS + j div 8 < 2 * BS" by simp
      then have "bit_at BS j \<notin> blocks_touched (2 * BS) D bf \<union>
                 bytes_at (3 * BS + fin * INODE_SIZE) INODE_SIZE"
        using DL by (auto simp: bit_at_def blocks_touched_def bytes_at_def)
      from bit_get_frame [OF f23 this] bit_get_bit_set [OF s1, of j] show ?thesis by simp
    qed
    have b2: "bit_get img3 (2 * BS) j = map_option (\<lambda>x. x \<or> j \<in> unat ` set bf) (bit_get img (2 * BS) j)"
      if "j < 8 * BS" for j
    proof -
      from that have j3: "2 * BS + j div 8 < 3 * BS" by simp
      have "bit_at (2 * BS) j \<notin> {bit_at BS fin}"
        using i1 by (auto simp: bit_at_def)
      from bit_get_frame [OF frame_bit_set [OF s1] this]
      have g1: "bit_get img1 (2 * BS) j = bit_get img (2 * BS) j" .
      have "\<forall>b \<in> set bf. 2 * BS + j div 8 < D + unat b * BS \<or> D + unat b * BS + BS \<le> 2 * BS + j div 8"
        using j3 DL by auto
      from bit_get_write_blocks [OF s2 this]
      have g2: "bit_get img2 (2 * BS) j
                = map_option (\<lambda>x. x \<or> j \<in> unat ` set bf) (bit_get img1 (2 * BS) j)" .
      have "bit_at (2 * BS) j \<notin> bytes_at (3 * BS + fin * INODE_SIZE) INODE_SIZE"
        using j3 by (auto simp: bit_at_def bytes_at_def)
      from bit_get_frame [OF f3 this] g2 g1 show ?thesis by simp
    qed
    have sl: "take INODE_SIZE (drop (3 * BS + fin * INODE_SIZE) img3)
           = inode_bytes (file_inode (of_nat (length fb)) now bf)"
      using adder_alloc_slot [OF a] by (simp add: o(1,2,3) fin_def peek_Some)
    show ?thesis
      using l3 fr b1 b2 sl by (simp add: fin_def D_def)
  qed
qed

lemma adder_commit_ok:
  assumes "inode_tbl_off sb + INODE_SIZE \<le> length img" "SB_SIZE \<le> length img"
  shows "\<exists>img'. adder_commit img sb root_ino now' = Some img'"
proof -
  obtain img1 where s1: "memcpy img (inode_tbl_off sb) (inode_bytes (bump_root root_ino)) = Some img1"
    using memcpy_ok [of "inode_tbl_off sb" "inode_bytes (bump_root root_ino)" img] assms by auto
  have "length img1 = length img" using s1 by (rule memcpy_length)
  then obtain img' where
    "memcpy img1 0 (superblock_bytes (superblock_crc_finalize (sb\<lparr> mtime_epoch := now' \<rparr>)))
       = Some img'"
    using memcpy_ok [of 0 "superblock_bytes (superblock_crc_finalize (sb\<lparr> mtime_epoch := now' \<rparr>))" img1]
      assms by auto
  with s1 show ?thesis by (simp add: adder_commit_def)
qed

lemma adder_rollback_ok:
  assumes "inode_bm_off sb + fi div 8 < length img"
    "\<forall>b \<in> set bf. data_bm_off sb + unat b div 8 < length img"
  shows "\<exists>img'. adder_rollback img sb fi bf = Some img'"
proof -
  obtain img1 where s1: "bit_clear img (inode_bm_off sb) fi = Some img1"
    using assms(1) by (auto simp: bit_clear_def)
  have "length img1 = length img" using s1 by (rule bit_clear_length)
  with assms(2) have "\<forall>b \<in> set bf. data_bm_off sb + unat b div 8 < length img1" by simp
  from clear_blocks_ok [OF this] s1 show ?thesis by (simp add: adder_rollback_def)
qed

text \<open>The second half of the adder after the allocation on a valid image.\<close>

lemma valid_link:
  assumes v: "valid_image img"
    and plan: "adder_plan img fb = Some (Inr (sb, fi, bf))"
    and alloc: "adder_alloc img sb fi bf fb now = Some img3"
    and rr: "rr = unat (direct (inode_at img 0) ! 0)"
    and rb: "rb = data_region_off sb + rr * BS"
    and nde: "nde = dirent_bytes (new_dirent (fi + 1) hf)"
  shows "take INODE_SIZE (drop (3 * BS) img3) = take INODE_SIZE (drop (3 * BS) img)"
    and "\<And>a. rb \<le> a \<Longrightarrow> a < rb + BS \<Longrightarrow> img3 ! a = img ! a"
    and "(\<exists>slot img4 img'. slot < 64 \<and> slot_ino img rr slot = 0 \<and>
            (\<forall>s < slot. slot_ino img rr s \<noteq> 0) \<and>
            memcpy img3 (rb + DIRENT_SIZE * slot) nde = Some img4 \<and>
            adder_commit img4 sb (inode_at img 0) now' = Some img' \<and>
            adder_link img3 sb fi bf hf now' = Some (Inr img'))
       \<or> ((\<forall>s < 64. slot_ino img rr s \<noteq> 0) \<and>
            (\<exists>img5. adder_rollback img3 sb (unat (scast fi :: u64)) bf = Some img5 \<and>
               adder_link img3 sb fi bf hf now' = Some (Inl (NoFreeDirEntry, img5))))"
proof -
  note vd = valid_imageD [OF v]
  note p = adder_plan_valid [OF vd(7) plan]
  note c = adder_plan_chosen [OF vd(7) plan]
  note nr = adder_plan_not_root [OF v plan]
  have g: "geometry sb (length img)" using vd(3) p(1) by simp
  note o = geometry_offsets(1,2,3) [OF g]
  note r = geometry_regions [OF g]
  note a = valid_alloc(2) [OF vd(7) plan alloc]
  define fin where "fin = unat (scast fi :: u64)"
  define D where "D = data_region_off sb"
  note cf = c(1,2,3) [folded fin_def]
  have l3: "length img3 = length img" using a by simp
  have fr: "frame img img3
           ({bit_at BS fin} \<union> blocks_touched (2 * BS) D bf \<union>
            bytes_at (3 * BS + fin * INODE_SIZE) INODE_SIZE)"
    using a by (simp add: fin_def D_def)
  have DL: "3 * BS \<le> D" "D \<le> length img" using r(5,6) by (simp_all add: D_def)
  have i1: "BS + fin div 8 < 2 * BS" using r(1) [OF cf(2)] .
  have slot: "3 * BS + fin * INODE_SIZE + INODE_SIZE \<le> D"
    using r(3) [OF cf(2)] by (simp add: D_def)
  have rrb: "rr < unat (data_region_blocks sb)" using vd(5) p(1) rr by simp
  have rbl: "rb + BS \<le> length img" using r(4) [OF rrb] rb by simp
  have rbD: "D \<le> rb" using rb by (simp add: D_def)
  have blk: "\<forall>b \<in> set bf. 2 * BS + unat b div 8 < 3 * BS \<and> unat b \<noteq> rr"
    using c(4) r(2) rr nr by auto
  show root: "take INODE_SIZE (drop (3 * BS) img3) = take INODE_SIZE (drop (3 * BS) img)"
  proof (rule take_drop_frame [OF fr])
    fix a k assume "3 * BS \<le> a" "a < 3 * BS + INODE_SIZE"
    then show "(a, k) \<notin> {bit_at BS fin} \<union> blocks_touched (2 * BS) D bf \<union>
            bytes_at (3 * BS + fin * INODE_SIZE) INODE_SIZE"
      using i1 blk DL cf(1) slot
      by (auto simp: bit_at_def blocks_touched_def bytes_at_def)
  qed (use DL slot in simp)
  show blkframe: "img3 ! a = img ! a" if "rb \<le> a" "a < rb + BS" for a
  proof (rule frame_nth [OF fr])
    show "a < length img" using that rbl by simp
    fix k
    have "a \<notin> {D + unat b * BS ..< D + unat b * BS + BS}" if "b \<in> set bf" for b
    proof -
      from that blk have "unat b \<noteq> rr" by simp
      then consider "unat b < rr" | "rr < unat b" by linarith
      then show ?thesis
      proof cases
        case 1
        then have "unat b * BS + BS \<le> rr * BS"
          by (metis Suc_leI mult_Suc mult_le_mono1 add.commute)
        with \<open>rb \<le> a\<close> show ?thesis by (simp add: rb D_def)
      next
        case 2
        then have "rr * BS + BS \<le> unat b * BS"
          by (metis Suc_leI mult_Suc mult_le_mono1 add.commute)
        with \<open>a < rb + BS\<close> show ?thesis by (simp add: rb D_def)
      qed
    qed
    then show "(a, k) \<notin> {bit_at BS fin} \<union> blocks_touched (2 * BS) D bf \<union>
            bytes_at (3 * BS + fin * INODE_SIZE) INODE_SIZE"
      using i1 blk DL slot rbD that
      by (auto simp: bit_at_def blocks_touched_def bytes_at_def)
  qed
  have pk: "peek img3 (3 * BS) INODE_SIZE = Some (take INODE_SIZE (drop (3 * BS) img))"
    using DL slot l3 root by (simp add: peek_def)
  have rootino: "inode_of_bytes (take INODE_SIZE (drop (3 * BS) img)) = inode_at img 0"
    by (simp add: inode_at_def)
  have ok: "\<not> data_region_blocks sb \<le> ucast (direct (inode_at img 0) ! 0)"
    using rrb rr by (simp add: word_le_nat_alt unat_ucast_32_64)
  have lnde: "length nde = DIRENT_SIZE" by (simp add: nde)
  have slots: "peek img3 (rb + DIRENT_SIZE * s) 4 = Some bs \<Longrightarrow> le_word bs = slot_ino img rr s"
    if "s < 64" for s bs
  proof -
    assume "peek img3 (rb + DIRENT_SIZE * s) 4 = Some bs"
    then have "bs = take 4 (drop (rb + DIRENT_SIZE * s) img3)" by (simp add: peek_Some)
    also have "\<dots> = take 4 (drop (rb + DIRENT_SIZE * s) img)"
    proof (rule nth_equalityI)
      show "length (take 4 (drop (rb + DIRENT_SIZE * s) img3))
            = length (take 4 (drop (rb + DIRENT_SIZE * s) img))" by (simp add: l3)
    next
      fix i assume "i < length (take 4 (drop (rb + DIRENT_SIZE * s) img3))"
      then have i: "i < 4" by simp
      have "rb + DIRENT_SIZE * s + i < rb + BS" using that i by simp
      then have "img3 ! (rb + DIRENT_SIZE * s + i) = img ! (rb + DIRENT_SIZE * s + i)"
        by (intro blkframe) simp_all
      then show "take 4 (drop (rb + DIRENT_SIZE * s) img3) ! i
                 = take 4 (drop (rb + DIRENT_SIZE * s) img) ! i"
        using i that rbl l3 by simp
    qed
    finally show "le_word bs = slot_ino img rr s"
      by (simp add: slot_ino_def rb p(1) [symmetric])
  qed
  have link: "adder_link img3 sb fi bf hf now' =
      insert_dirent img3 rb nde 0 \<bind>
        (\<lambda>added. case added of
           None \<Rightarrow> adder_rollback img3 sb (unat (scast fi :: u64)) bf
                     \<bind> (\<lambda>img'. Some (Inl (NoFreeDirEntry, img')))
         | Some img4 \<Rightarrow> adder_commit img4 sb (inode_at img 0) now' \<bind> (\<lambda>img'. Some (Inr img')))"
    unfolding adder_link_def Let_def o
    using pk ok rootino by (simp add: rb rr nde)
  have "insert_dirent img3 rb nde 0 \<noteq> None"
    using insert_dirent_total [of rb img3 nde 0] rbl l3 lnde by simp
  then obtain added where ins: "insert_dirent img3 rb nde 0 = Some added" by blast
  show "(\<exists>slot img4 img'. slot < 64 \<and> slot_ino img rr slot = 0 \<and>
            (\<forall>s < slot. slot_ino img rr s \<noteq> 0) \<and>
            memcpy img3 (rb + DIRENT_SIZE * slot) nde = Some img4 \<and>
            adder_commit img4 sb (inode_at img 0) now' = Some img' \<and>
            adder_link img3 sb fi bf hf now' = Some (Inr img'))
       \<or> ((\<forall>s < 64. slot_ino img rr s \<noteq> 0) \<and>
            (\<exists>img5. adder_rollback img3 sb (unat (scast fi :: u64)) bf = Some img5 \<and>
               adder_link img3 sb fi bf hf now' = Some (Inl (NoFreeDirEntry, img5))))"
  proof (cases added)
    case None
    from insert_dirent_full [of img3 rb nde 0 0] ins None
    have "\<forall>s. s < 64 \<longrightarrow>
           (\<exists>bs. peek img3 (rb + DIRENT_SIZE * s) 4 = Some bs \<and> (le_word bs :: u32) \<noteq> 0)"
      by simp
    then have full: "\<forall>s < 64. slot_ino img rr s \<noteq> 0" using slots by metis
    have "\<exists>img5. adder_rollback img3 sb fin bf = Some img5"
      by (rule adder_rollback_ok) (use i1 blk DL l3 in \<open>auto simp: o\<close>)
    then obtain img5 where "adder_rollback img3 sb fin bf = Some img5" by blast
    with full link ins None show ?thesis by (auto simp: fin_def)
  next
    case (Some img4)
    from insert_dirent_Some [of img3 rb nde 0 img4 0] ins Some obtain slot where
      sl: "slot < 64" "memcpy img3 (rb + DIRENT_SIZE * slot) nde = Some img4"
      "\<exists>bs. peek img3 (rb + DIRENT_SIZE * slot) 4 = Some bs \<and> (le_word bs :: u32) = 0"
      "\<forall>s. s < slot \<longrightarrow>
         (\<exists>bs. peek img3 (rb + DIRENT_SIZE * s) 4 = Some bs \<and> (le_word bs :: u32) \<noteq> 0)"
      by auto
    from sl(3) slots [OF sl(1)] have z: "slot_ino img rr slot = 0" by metis
    have nz: "\<forall>s < slot. slot_ino img rr s \<noteq> 0"
    proof (intro allI impI)
      fix s assume "s < slot"
      with sl(4) obtain bs where "peek img3 (rb + DIRENT_SIZE * s) 4 = Some bs"
        "(le_word bs :: u32) \<noteq> 0" by blast
      moreover have "s < 64" using \<open>s < slot\<close> sl(1) by simp
      ultimately show "slot_ino img rr s \<noteq> 0" using slots by metis
    qed
    have l4: "length img4 = length img" using memcpy_length [OF sl(2)] l3 by simp
    have "\<exists>img'. adder_commit img4 sb (inode_at img 0) now' = Some img'"
      by (rule adder_commit_ok) (use DL slot l4 in \<open>simp_all add: o\<close>)
    then obtain img' where "adder_commit img4 sb (inode_at img 0) now' = Some img'" by blast
    with sl z nz link ins Some show ?thesis by auto
  qed
qed

lemma take_drop_eq_frame:
  assumes "frame img img' S" "off + n \<le> length img"
    "\<And>a k. off \<le> a \<Longrightarrow> a < off + n \<Longrightarrow> (a, k) \<notin> S"
  shows "take n (drop off img') = take n (drop off img)"
  using take_drop_frame [OF assms(1) assms(3) assms(2)] .

text \<open>What a successful run on a valid image leaves behind.\<close>

lemma valid_result:
  assumes v: "valid_image img"
    and run: "add_file img hf fb now now' = Some (Inr img')"
    and plan: "adder_plan img fb = Some (Inr (sb, fi, bf))"
    and fin: "fin = unat (scast fi :: u64)"
    and rr: "rr = unat (direct (inode_at img 0) ! 0)"
  shows "length img' = length img"
    and "image_sb img' = superblock_crc_finalize (sb\<lparr> mtime_epoch := now' \<rparr>)"
    and "\<And>j. j < 8 * BS \<Longrightarrow>
           bit_get img' BS j = map_option (\<lambda>x. x \<or> j = fin) (bit_get img BS j)"
    and "\<And>j. j < 8 * BS \<Longrightarrow>
           bit_get img' (2 * BS) j = map_option (\<lambda>x. x \<or> j \<in> unat ` set bf) (bit_get img (2 * BS) j)"
    and "inode_at img' fin = file_inode (of_nat (length fb)) now bf"
    and "inode_at img' 0 = bump_root (inode_at img 0)"
    and "\<And>j. j \<noteq> fin \<Longrightarrow> j \<noteq> 0 \<Longrightarrow> j < unat (inode_count sb) \<Longrightarrow>
           inode_at img' j = inode_at img j"
    and "\<exists>slot < 64. slot_ino img rr slot = 0 \<and> (\<forall>s < slot. slot_ino img rr s \<noteq> 0) \<and>
           dirent_at img' rr slot = new_dirent (fi + 1) hf \<and>
           (\<forall>s < 64. s \<noteq> slot \<longrightarrow>
              dirent_at img' rr s = dirent_at img rr s \<and> slot_ino img' rr s = slot_ino img rr s)"
proof -
  note vd = valid_imageD [OF v]
  note p = adder_plan_valid [OF vd(7) plan]
  note c = adder_plan_chosen [OF vd(7) plan]
  have g: "geometry sb (length img)" using vd(3) p(1) by simp
  note o = geometry_offsets(1,2,3) [OF g]
  note r = geometry_regions [OF g]
  define D where "D = data_region_off sb"
  define rb where "rb = D + rr * BS"
  define nde where "nde = dirent_bytes (new_dirent (fi + 1) hf)"
  note cf = c(1,2,3) [folded fin]
  have lbf: "length bf \<le> DIRECT_MAX"
    using adder_plan_Inr(4) [OF plan] p(6) by (simp add: word_le_nat_alt)
  from run plan obtain img3 where
    alloc: "adder_alloc img sb fi bf fb now = Some img3"
    and link: "adder_link img3 sb fi bf hf now' = Some (Inr img')"
    by (auto elim!: add_file_Inr)
  note a = valid_alloc(2) [OF vd(7) plan alloc, folded fin D_def]
  note k = valid_link [OF v plan alloc rr rb_def [unfolded D_def] nde_def, folded D_def rb_def]
  from k(3) [of now'] link obtain slot img4 where
    sl: "slot < 64" "slot_ino img rr slot = 0" "\<forall>s < slot. slot_ino img rr s \<noteq> 0"
    and w4: "memcpy img3 (rb + DIRENT_SIZE * slot) nde = Some img4"
    and com: "adder_commit img4 sb (inode_at img 0) now' = Some img'"
    by auto
  from com obtain img5 where
    w5: "memcpy img4 (3 * BS) (inode_bytes (bump_root (inode_at img 0))) = Some img5"
    and w6: "memcpy img5 0 (superblock_bytes (superblock_crc_finalize (sb\<lparr> mtime_epoch := now' \<rparr>)))
             = Some img'"
    by (auto elim!: adder_commit_Some simp: o)
  have l3: "length img3 = length img" using a by simp
  have l4: "length img4 = length img" using memcpy_length [OF w4] l3 by simp
  have l5: "length img5 = length img" using memcpy_length [OF w5] l4 by simp
  show l': "length img' = length img" using memcpy_length [OF w6] l5 by simp
  have DL: "3 * BS \<le> D" "D \<le> length img" using r(5,6) by (simp_all add: D_def)
  have slotf: "3 * BS + fin * INODE_SIZE + INODE_SIZE \<le> D"
    using r(3) [OF cf(2)] by (simp add: D_def)
  have rrb: "rr < unat (data_region_blocks sb)" using vd(5) p(1) rr by simp
  have rbl: "rb + BS \<le> length img" using r(4) [OF rrb] by (simp add: rb_def D_def)
  have rbD: "D \<le> rb" by (simp add: rb_def)
  have lnde: "length nde = DIRENT_SIZE" by (simp add: nde_def)
  have f4: "frame img3 img4 (bytes_at (rb + DIRENT_SIZE * slot) DIRENT_SIZE)"
    using frame_memcpy [OF w4] lnde by simp
  have f5: "frame img4 img5 (bytes_at (3 * BS) INODE_SIZE)"
    using frame_memcpy [OF w5] by simp
  have f6: "frame img5 img' (bytes_at 0 SB_SIZE)"
    using frame_memcpy [OF w6] by simp
  have f56: "frame img4 img' (bytes_at (3 * BS) INODE_SIZE \<union> bytes_at 0 SB_SIZE)"
    by (rule frame_trans [OF f5 f6])
  have f36: "frame img3 img'
       (bytes_at (rb + DIRENT_SIZE * slot) DIRENT_SIZE \<union>
        (bytes_at (3 * BS) INODE_SIZE \<union> bytes_at 0 SB_SIZE))"
    by (rule frame_trans [OF f4 f56])
  have sb': "take SB_SIZE img' = superblock_bytes (superblock_crc_finalize (sb\<lparr> mtime_epoch := now' \<rparr>))"
    using peek_memcpy_same [OF w6] by (simp add: peek_Some)
  show isb: "image_sb img' = superblock_crc_finalize (sb\<lparr> mtime_epoch := now' \<rparr>)"
    unfolding image_sb_def sb' by (rule superblock_of_bytes_inverse)
  have D': "data_region_off (image_sb img') = D"
    unfolding isb by (simp add: data_region_off_def D_def)
  show "bit_get img' BS j = map_option (\<lambda>x. x \<or> j = fin) (bit_get img BS j)" if "j < 8 * BS" for j
  proof -
    from that have "BS + j div 8 < 2 * BS" "BS \<le> BS + j div 8" by simp_all
    then have "bit_at BS j \<notin> bytes_at (rb + DIRENT_SIZE * slot) DIRENT_SIZE \<union>
        (bytes_at (3 * BS) INODE_SIZE \<union> bytes_at 0 SB_SIZE)"
      using DL rbD by (auto simp: bit_at_def bytes_at_def)
    from bit_get_frame [OF f36 this] a that show ?thesis by simp
  qed
  show "bit_get img' (2 * BS) j = map_option (\<lambda>x. x \<or> j \<in> unat ` set bf) (bit_get img (2 * BS) j)"
    if "j < 8 * BS" for j
  proof -
    from that have "2 * BS + j div 8 < 3 * BS" "2 * BS \<le> 2 * BS + j div 8" by simp_all
    then have "bit_at (2 * BS) j \<notin> bytes_at (rb + DIRENT_SIZE * slot) DIRENT_SIZE \<union>
        (bytes_at (3 * BS) INODE_SIZE \<union> bytes_at 0 SB_SIZE)"
      using DL rbD by (auto simp: bit_at_def bytes_at_def)
    from bit_get_frame [OF f36 this] a that show ?thesis by simp
  qed
  have "take INODE_SIZE (drop (3 * BS + fin * INODE_SIZE) img')
        = take INODE_SIZE (drop (3 * BS + fin * INODE_SIZE) img3)"
    by (rule take_drop_eq_frame [OF f36])
       (use DL rbD slotf cf(1) l3 in \<open>auto simp: bytes_at_def\<close>)
  then show "inode_at img' fin = file_inode (of_nat (length fb)) now bf"
    using a lbf by (simp add: inode_at_def inode_of_bytes_inverse)
  have "take INODE_SIZE (drop (3 * BS) img') = take INODE_SIZE (drop (3 * BS) img5)"
    by (rule take_drop_eq_frame [OF f6]) (use DL slotf l5 in \<open>auto simp: bytes_at_def\<close>)
  also have "\<dots> = inode_bytes (bump_root (inode_at img 0))"
    using peek_memcpy_same [OF w5] by (simp add: peek_Some)
  finally show "inode_at img' 0 = bump_root (inode_at img 0)"
    by (simp add: inode_at_def [of img'] inode_of_bytes_inverse inode_at_def [of img 0])
  show "inode_at img' j = inode_at img j"
    if j: "j \<noteq> fin" "j \<noteq> 0" "j < unat (inode_count sb)" for j
  proof -
    have js: "3 * BS + j * INODE_SIZE + INODE_SIZE \<le> D" using r(3) [OF j(3)] by (simp add: D_def)
    have i1: "BS + fin div 8 < 2 * BS" using r(1) [OF cf(2)] .
    have blk: "\<forall>b \<in> set bf. 2 * BS + unat b div 8 < 3 * BS"
      using c(4) r(2) by auto
    from j(1) consider "j < fin" | "fin < j" by linarith
    then have dis: "j * INODE_SIZE + INODE_SIZE \<le> fin * INODE_SIZE
                    \<or> fin * INODE_SIZE + INODE_SIZE \<le> j * INODE_SIZE"
      by cases simp_all
    have 1: "take INODE_SIZE (drop (3 * BS + j * INODE_SIZE) img')
          = take INODE_SIZE (drop (3 * BS + j * INODE_SIZE) img3)"
      by (rule take_drop_eq_frame [OF f36])
         (use DL rbD js j(2) l3 in \<open>auto simp: bytes_at_def\<close>)
    have 2: "take INODE_SIZE (drop (3 * BS + j * INODE_SIZE) img3)
          = take INODE_SIZE (drop (3 * BS + j * INODE_SIZE) img)"
      by (rule take_drop_eq_frame [where S = "{bit_at BS fin} \<union> blocks_touched (2 * BS) D bf \<union>
            bytes_at (3 * BS + fin * INODE_SIZE) INODE_SIZE"])
         (use a DL js i1 blk dis in \<open>auto simp: bytes_at_def bit_at_def blocks_touched_def\<close>)
    show ?thesis using 1 2 by (simp add: inode_at_def)
  qed
  have rd: "take DIRENT_SIZE (drop (rb + DIRENT_SIZE * s) img')
            = take DIRENT_SIZE (drop (rb + DIRENT_SIZE * s) img4)" if "s < 64" for s
    by (rule take_drop_eq_frame [OF f56])
       (use DL rbD rbl l4 slotf that in \<open>auto simp: bytes_at_def\<close>)
  have "take DIRENT_SIZE (drop (rb + DIRENT_SIZE * slot) img4) = nde"
    using peek_memcpy_same [OF w4] lnde by (simp add: peek_Some)
  with rd [OF sl(1)] have "take DIRENT_SIZE (drop (rb + DIRENT_SIZE * slot) img') = nde"
    by simp
  then have d_new: "dirent_at img' rr slot = new_dirent (fi + 1) hf"
    by (simp add: dirent_at_def D' rb_def [symmetric] nde_def
        dirent_of_bytes_inverse new_dirent_fields)
  have d_old: "take DIRENT_SIZE (drop (rb + DIRENT_SIZE * s) img')
               = take DIRENT_SIZE (drop (rb + DIRENT_SIZE * s) img)"
    if s: "s < 64" "s \<noteq> slot" for s
  proof -
    from s(2) consider "s < slot" | "slot < s" by linarith
    then have dis: "DIRENT_SIZE * s + DIRENT_SIZE \<le> DIRENT_SIZE * slot
                    \<or> DIRENT_SIZE * slot + DIRENT_SIZE \<le> DIRENT_SIZE * s"
      by cases simp_all
    have "take DIRENT_SIZE (drop (rb + DIRENT_SIZE * s) img4)
          = take DIRENT_SIZE (drop (rb + DIRENT_SIZE * s) img3)"
      by (rule take_drop_eq_frame [OF f4])
         (use rbl l3 s(1) dis in \<open>auto simp: bytes_at_def\<close>)
    also have "\<dots> = take DIRENT_SIZE (drop (rb + DIRENT_SIZE * s) img)"
    proof (rule take_drop_eqI)
      fix i assume "i < DIRENT_SIZE"
      then have "rb + DIRENT_SIZE * s + i < rb + BS" using s(1) by simp
      then have "img3 ! (rb + DIRENT_SIZE * s + i) = img ! (rb + DIRENT_SIZE * s + i)"
        by (intro k(2)) simp_all
      then show "img3 ! (rb + DIRENT_SIZE * s + i)
                 = take DIRENT_SIZE (drop (rb + DIRENT_SIZE * s) img) ! i"
        using \<open>i < DIRENT_SIZE\<close> rbl s(1) by simp
    qed (use rbl l3 s(1) in simp_all)
    finally show ?thesis using rd [OF s(1)] by simp
  qed
  have "dirent_at img' rr s = dirent_at img rr s \<and> slot_ino img' rr s = slot_ino img rr s"
    if s: "s < 64" "s \<noteq> slot" for s
  proof -
    have "take 4 (take DIRENT_SIZE (drop (rb + DIRENT_SIZE * s) img'))
          = take 4 (take DIRENT_SIZE (drop (rb + DIRENT_SIZE * s) img))"
      using d_old [OF s] by simp
    then have "take 4 (drop (rb + DIRENT_SIZE * s) img') = take 4 (drop (rb + DIRENT_SIZE * s) img)"
      by simp
    then show ?thesis
      using d_old [OF s]
      by (simp add: dirent_at_def slot_ino_def D' rb_def [symmetric] p(1) [symmetric]
          D_def [symmetric])
  qed
  with sl d_new show "\<exists>slot < 64. slot_ino img rr slot = 0 \<and> (\<forall>s < slot. slot_ino img rr s \<noteq> 0) \<and>
           dirent_at img' rr slot = new_dirent (fi + 1) hf \<and>
           (\<forall>s < 64. s \<noteq> slot \<longrightarrow>
              dirent_at img' rr s = dirent_at img rr s \<and> slot_ino img' rr s = slot_ino img rr s)"
    by blast
qed

lemma add_file_plan_ok:
  assumes "adder_plan img fb = Some (Inr (sb, fi, bf))"
    and "adder_alloc img sb fi bf fb now = Some img3"
  shows "add_file img hf fb now now' = adder_link img3 sb fi bf hf now'"
  using assms by (simp add: add_file_def)

text \<open>A valid image with a free directory slot: the adder succeeds.\<close>

lemma valid_progress:
  assumes v: "valid_image img"
    and plan: "adder_plan img fb = Some (Inr (sb, fi, bf))"
    and free: "\<exists>s < 64. slot_ino img (unat (direct (inode_at img 0) ! 0)) s = 0"
  shows "\<exists>img'. add_file img hf fb now now' = Some (Inr img')"
proof -
  note vd = valid_imageD [OF v]
  from valid_alloc(1) [OF vd(7) plan] obtain img3 where
    alloc: "adder_alloc img sb fi bf fb now = Some img3" by blast
  from valid_link(3) [OF v plan alloc refl refl refl, where hf = hf and now' = now'] free
  obtain img' where "adder_link img3 sb fi bf hf now' = Some (Inr img')" by blast
  then show ?thesis using add_file_plan_ok [OF plan alloc] by simp
qed

text \<open>
  A valid image whose root directory is full: the adder fails with \<open>NoFreeDirEntry\<close>, and
  the buffer it leaves still holds the new inode in its table slot.
\<close>

lemma valid_dir_full:
  assumes v: "valid_image img"
    and plan: "adder_plan img fb = Some (Inr (sb, fi, bf))"
    and full: "\<forall>s < 64. slot_ino img (unat (direct (inode_at img 0) ! 0)) s \<noteq> 0"
  shows "\<exists>buf. add_file img hf fb now now' = Some (Inl (NoFreeDirEntry, buf)) \<and>
           take INODE_SIZE (drop (3 * BS + unat (scast fi :: u64) * INODE_SIZE) buf)
             = inode_bytes (file_inode (of_nat (length fb)) now bf)"
proof -
  note vd = valid_imageD [OF v]
  note p = adder_plan_valid [OF vd(7) plan]
  note c = adder_plan_chosen [OF vd(7) plan]
  have g: "geometry sb (length img)" using vd(3) p(1) by simp
  note o = geometry_offsets(1,2,3) [OF g]
  note r = geometry_regions [OF g]
  define fin where "fin = unat (scast fi :: u64)"
  note cf = c(1,2,3) [folded fin_def]
  from valid_alloc(1) [OF vd(7) plan] obtain img3 where
    alloc: "adder_alloc img sb fi bf fb now = Some img3" by blast
  note a = valid_alloc(2) [OF vd(7) plan alloc, folded fin_def]
  from valid_link(3) [OF v plan alloc refl refl refl, where hf = hf and now' = now'] full
  obtain img5 where rb: "adder_rollback img3 sb fin bf = Some img5"
    and l: "adder_link img3 sb fi bf hf now' = Some (Inl (NoFreeDirEntry, img5))"
    by (auto simp: fin_def)
  from rb obtain img4 where r1: "bit_clear img3 BS fin = Some img4"
    and r2: "clear_blocks img4 (2 * BS) bf = Some img5"
    by (auto simp: adder_rollback_def o bind_eq_Some_conv)
  have f: "frame img3 img5 ({bit_at BS fin} \<union> (\<lambda>b. bit_at (2 * BS) (unat b)) ` set bf)"
    by (rule frame_trans [OF frame_bit_clear [OF r1] frame_clear_blocks [OF r2]])
  have i1: "BS + fin div 8 < 2 * BS" using r(1) [OF cf(2)] .
  have blk: "\<forall>b \<in> set bf. 2 * BS + unat b div 8 < 3 * BS" using c(4) r(2) by auto
  have sl: "3 * BS + fin * INODE_SIZE + INODE_SIZE \<le> data_region_off sb" using r(3) [OF cf(2)] .
  have "take INODE_SIZE (drop (3 * BS + fin * INODE_SIZE) img5)
        = take INODE_SIZE (drop (3 * BS + fin * INODE_SIZE) img3)"
    by (rule take_drop_eq_frame [OF f])
       (use a i1 blk sl r(6) in \<open>auto simp: bit_at_def\<close>)
  with a l add_file_plan_ok [OF plan alloc, of hf now'] show ?thesis
    by (simp add: fin_def)
qed

text \<open>
  A sound layout whose root inode points outside the data region: the adder fails with
  \<open>CorruptRootPointer\<close> after the allocation, and the buffer it leaves has the new inode's
  bitmap bit set.
\<close>

lemma sane_corrupt_root:
  assumes v: "sane_image img"
    and plan: "adder_plan img fb = Some (Inr (sb, fi, bf))"
    and bad: "unat (data_region_blocks sb) \<le> unat (direct (inode_at img 0) ! 0)"
  shows "\<exists>buf. add_file img hf fb now now' = Some (Inl (CorruptRootPointer, buf)) \<and>
           bit_get buf BS (unat (scast fi :: u64)) = Some True \<and>
           bit_get img BS (unat (scast fi :: u64)) = Some False"
proof -
  note vd = sane_imageD [OF v]
  note p = adder_plan_valid [OF v plan]
  note c = adder_plan_chosen [OF v plan]
  have g: "geometry sb (length img)" using vd(3) p(1) by simp
  note o = geometry_offsets(1,2,3) [OF g]
  note r = geometry_regions [OF g]
  note b = geometry_bounds [OF g]
  define fin where "fin = unat (scast fi :: u64)"
  define D where "D = data_region_off sb"
  note cf = c(1,2,3) [folded fin_def]
  from valid_alloc(1) [OF v plan] obtain img3 where
    alloc: "adder_alloc img sb fi bf fb now = Some img3" by blast
  note a = valid_alloc(2) [OF v plan alloc, folded fin_def D_def]
  have l3: "length img3 = length img" using a by simp
  have fr: "frame img img3
           ({bit_at BS fin} \<union> blocks_touched (2 * BS) D bf \<union>
            bytes_at (3 * BS + fin * INODE_SIZE) INODE_SIZE)"
    using a by simp
  have DL: "3 * BS \<le> D" "D \<le> length img" using r(5,6) by (simp_all add: D_def)
  have i1: "BS + fin div 8 < 2 * BS" using r(1) [OF cf(2)] .
  have slot: "3 * BS + fin * INODE_SIZE + INODE_SIZE \<le> D"
    using r(3) [OF cf(2)] by (simp add: D_def)
  have blk: "\<forall>b \<in> set bf. 2 * BS + unat b div 8 < 3 * BS" using c(4) r(2) by auto
  have root: "take INODE_SIZE (drop (3 * BS) img3) = take INODE_SIZE (drop (3 * BS) img)"
  proof (rule take_drop_frame [OF fr])
    fix a k assume "3 * BS \<le> a" "a < 3 * BS + INODE_SIZE"
    then show "(a, k) \<notin> {bit_at BS fin} \<union> blocks_touched (2 * BS) D bf \<union>
            bytes_at (3 * BS + fin * INODE_SIZE) INODE_SIZE"
      using i1 blk DL cf(1) slot
      by (auto simp: bit_at_def blocks_touched_def bytes_at_def)
  qed (use DL slot in simp)
  have pk: "peek img3 (3 * BS) INODE_SIZE = Some (take INODE_SIZE (drop (3 * BS) img))"
    using DL slot l3 root by (simp add: peek_def)
  have rootino: "inode_of_bytes (take INODE_SIZE (drop (3 * BS) img)) = inode_at img 0"
    by (simp add: inode_at_def)
  have ok: "data_region_blocks sb \<le> ucast (direct (inode_at img 0) ! 0)"
    using bad by (simp add: word_le_nat_alt unat_ucast_32_64)
  have link: "adder_link img3 sb fi bf hf now' = Some (Inl (CorruptRootPointer, img3))"
    unfolding adder_link_def Let_def o
    using pk ok rootino by simp
  have "fin < 8 * BS" using cf(2) b(2) by simp
  with a cf(3) have "bit_get img3 BS fin = Some True" by simp
  with link cf(3) add_file_plan_ok [OF plan alloc, of hf now'] show ?thesis
    by (simp add: fin_def)
qed

lemma free_list_fresh:
  assumes "\<And>j. j < n \<Longrightarrow> bit_get img bm j = Some (j = 0)" "0 < n"
  shows "free_list img bm n = [1..<n]"
proof -
  have u: "[0..<n] = 0 # [1..<n]" using assms(2) by (simp add: upt_conv_Cons)
  have "filter (\<lambda>j. bit_get img bm j = Some False) [1..<n] = [1..<n]"
    by (rule filter_True) (use assms(1) in auto)
  then show ?thesis
    unfolding free_list_def u using assms by simp
qed

lemma take_upt_1: "k < n \<Longrightarrow> take k [1..<n] = [1..<Suc k]"
  by (simp add: take_upt)

text \<open>The plan of the adder on a freshly formatted image, for a file of at most 12 blocks.\<close>

lemma fresh_plan:
  assumes bv: "builder_valid size_kib ic"
    and run: "mkfs_builder size_kib ic t t' = Some (Inr img)"
    and small: "length fb \<le> DIRECT_MAX * BS"
  shows "valid_image img"
    and "adder_plan img fb
         = Some (Inr (image_sb img, 1, map of_nat [1..<Suc (max 1 (ceil_div (length fb) BS))]))"
    and "free_list img BS (unat (inode_count (image_sb img))) = [1..<unat ic]"
    and "free_list img (2 * BS) (unat (data_region_blocks (image_sb img)))
         = [1..<unat (data_region_blocks (image_sb img))]"
    and "26 \<le> unat (data_region_blocks (image_sb img))"
    and "slot_ino img 0 0 = 1" "slot_ino img 0 1 = 1"
    and "\<And>s. 2 \<le> s \<Longrightarrow> s < 64 \<Longrightarrow> slot_ino img 0 s = 0"
    and "inode_at img 0 = root_dir_inode t'"
proof -
  from bv obtain img0 tbl ds db where
    run0: "mkfs_builder size_kib ic t t' = Some (Inr img0)"
    and fmt0: "format (size_kib div 4) ic t t' = Some (Inr img0)"
    and fit: "fits (size_kib div 4) ic"
    and lay: "layout (size_kib div 4) ic = Inr (tbl, ds, db)"
    and b: "4 \<le> unat tbl" "unat tbl \<le> 16" "unat ic * INODE_SIZE \<le> unat tbl * BS"
      "unat ds = 3 + unat tbl" "unat db = unat (size_kib div 4) - unat ds"
      "unat (size_kib div 4) \<le> 1024" "unat ic \<le> 512" "128 \<le> unat ic"
      "45 \<le> unat (size_kib div 4)"
    using builder_image [OF bv, of t t'] builder_valid_format(4) [OF bv] by metis
  from run run0 have e: "img0 = img" by simp
  note fmt = fmt0 [unfolded e]
  from b have t1: "1 \<le> unat tbl" and b': "unat ic \<le> 8 * BS" "unat (size_kib div 4) \<le> 8 * BS"
    by simp_all
  note f = fresh_image [OF fit lay t1 fmt]
  note g = fresh_geometry [OF fit lay t1 fmt b(3) b']
  show v: "valid_image img" by (rule fresh_valid [OF fit lay t1 fmt b(3) b'])
  note o = geometry_offsets(1,2,3) [OF g(1)]
  have sbf: "inode_count (image_sb img) = ic" "data_region_blocks (image_sb img) = db"
    "magic (image_sb img) = 0x4D565346"
    by (simp_all add: f(2))
  have db26: "26 \<le> unat db" using b by simp
  show "26 \<le> unat (data_region_blocks (image_sb img))" using db26 by (simp add: sbf)
  have dbs: "unat db \<le> 8 * BS" using b by simp
  show fl1: "free_list img BS (unat (inode_count (image_sb img))) = [1..<unat ic]"
    unfolding sbf by (rule free_list_fresh) (use f(3) b in auto)
  show fl2: "free_list img (2 * BS) (unat (data_region_blocks (image_sb img)))
         = [1..<unat (data_region_blocks (image_sb img))]"
    unfolding sbf by (rule free_list_fresh) (use f(4) dbs db26 in auto)
  show r: "inode_at img 0 = root_dir_inode t'" using f(5) by (rule inode_at_fresh_root)
  have d0: "dirent_at img 0 0 = dot_entry ''.''"
    unfolding dirent_at_def g(2) using f(7)
    by (simp add: dirent_of_bytes_inverse dot_entry_fields)
  have d1: "dirent_at img 0 1 = dot_entry ''..''"
    unfolding dirent_at_def g(2) using f(8)
    by (simp add: dirent_of_bytes_inverse dot_entry_fields)
  from d1 have d1': "dirent_at img 0 (Suc 0) = dot_entry ''..''" by simp
  have si: "slot_ino img 0 s = inode_no (dirent_at img 0 s)" for s
    by (simp add: slot_ino_def dirent_at_def dirent_of_bytes_def field_def)
  show "slot_ino img 0 0 = 1" "slot_ino img 0 1 = 1"
    by (simp_all add: si d0 d1' dot_entry_fields)
  have len: "unat ds * BS + BS \<le> length img" using b by (simp add: f(1))
  show "slot_ino img 0 s = 0" if "2 \<le> s" "s < 64" for s
  proof -
    have "take 4 (drop (unat ds * BS + DIRENT_SIZE * s) img) = replicate 4 0"
    proof (rule take_drop_eqI)
      fix i :: nat assume "i < 4"
      then show "img ! (unat ds * BS + DIRENT_SIZE * s + i) = replicate 4 0 ! i"
        using f(9) [of "unat ds * BS + DIRENT_SIZE * s + i"] that by simp
    qed (use len that in simp_all)
    then show ?thesis by (simp add: slot_ino_def g(2) le_word_replicate_0)
  qed
  define need where "need = need_blocks_of (of_nat (length fb))"
  have lf: "length fb < 2 ^ 63" using small by simp
  have un: "unat need = max 1 (ceil_div (length fb) BS)"
    unfolding need_def by (rule unat_need_blocks [OF lf])
  have "ceil_div (length fb) BS \<le> DIRECT_MAX"
    by (rule ceil_div_least(2)) (use small in simp_all)
  then have n12: "unat need \<le> 12" "1 \<le> unat need" by (simp_all add: un)
  then have nw: "\<not> 12 < need" by (simp add: word_less_nat_alt)
  have big: "3 * BS \<le> length img" using len b(4) by simp
  have ib: "\<forall>j. unat (0 :: u64) \<le> j \<and> j < unat ic \<longrightarrow> BS + j div 8 < length img"
    using b(7) big by auto
  have ffi: "find_free_inode img BS ic 0 = Some 1"
    using find_free_inode_spec [OF ib] fl1 b(8)
    by (simp add: free_list_def sbf upt_conv_Cons)
  have dbb: "\<forall>j. unat (0 :: u64) \<le> j \<and> j < unat db \<longrightarrow> 2 * BS + j div 8 < length img"
    using dbs big by auto
  have "find_free_blocks img (2 * BS) db need 0 []
        = Some (take (unat need) (map of_nat [1..<unat db]))"
    using find_free_blocks_spec [OF dbb, of "[]" need] fl2
    by (simp add: free_list_def sbf)
  also have "take (unat need) (map of_nat [1..<unat db]) = map of_nat (take (unat need) [1..<unat db])"
    by (simp add: take_map)
  also have "take (unat need) [1..<unat db] = [1..<Suc (unat need)]"
    by (rule take_upt_1) (use n12 db26 in simp)
  finally have ffb0: "find_free_blocks img (2 * BS) db need 0 []
        = Some (map of_nat [1..<Suc (unat need)])" .
  define bfl :: "u32 list" where "bfl = map of_nat [1..<Suc (unat need)]"
  have ffb: "find_free_blocks img (2 * BS) db need 0 [] = Some bfl"
    using ffb0 by (simp only: bfl_def)
  have lb: "length bfl = unat need" by (simp add: bfl_def)
  have "unat (of_nat (length bfl) :: u64) = unat need" by (simp add: lb)
  then have nl: "\<not> (of_nat (length bfl) :: u64) < need" by (simp add: word_less_nat_alt)
  have ns: "\<not> (1 :: 32 word) <s 0" by (simp add: word_sless_alt)
  have "adder_plan img fb = Some (Inr (image_sb img, 1, bfl))"
    unfolding adder_plan_def Let_def image_sb_def [symmetric] need_def [symmetric] o sbf
    using big nw ffi ffb nl ns by simp
  then show "adder_plan img fb
         = Some (Inr (image_sb img, 1, map of_nat [1..<Suc (max 1 (ceil_div (length fb) BS))]))"
    by (simp only: bfl_def un)
qed

lemma builder_valid_180_128: "builder_valid 180 128"
  by (simp add: builder_valid_def)

lemma scast_one: "unat (scast (1 :: 32 word) :: u64) = 1"
  using unat_scast_small(1) [of 1] by simp

text \<open>The first run of the adder on the image formatted with 180 KiB and 128 inodes.\<close>

lemma first_add:
  assumes run0: "mkfs_builder 180 128 t t' = Some (Inr img0)"
    and small: "length fb \<le> DIRECT_MAX * BS"
  shows "\<exists>img1. add_file img0 hf fb now now' = Some (Inr img1)
           \<and> inode_at img1 1
               = file_inode (of_nat (length fb)) now
                   (map of_nat [1..<Suc (max 1 (ceil_div (length fb) BS))])
           \<and> dirent_at img1 0 2 = new_dirent 2 hf
           \<and> inode_at img1 0 = bump_root (root_dir_inode t')"
proof -
  note f = fresh_plan [OF builder_valid_180_128 run0 small]
  have rr: "unat (direct (inode_at img0 0) ! 0) = 0" by (simp add: f(9))
  have "\<exists>s < 64. slot_ino img0 (unat (direct (inode_at img0 0) ! 0)) s = 0"
    unfolding rr using f(8) [of 2] by (intro exI [of _ 2]) simp
  from valid_progress [OF f(1) f(2) this, of hf now now'] obtain img1 where
    run: "add_file img0 hf fb now now' = Some (Inr img1)" by blast
  note r = valid_result [OF f(1) run f(2) refl refl, unfolded rr scast_one]
  from r(8) obtain slot where sl: "slot < 64" "slot_ino img0 0 slot = 0"
    "\<forall>s < slot. slot_ino img0 0 s \<noteq> 0" "dirent_at img1 0 slot = new_dirent (1 + 1) hf"
    by blast
  have "slot = 2"
  proof (rule ccontr)
    assume n: "slot \<noteq> 2"
    have "slot \<noteq> 0" using sl(2) f(6) by (cases "slot = 0") simp_all
    moreover have "slot \<noteq> 1" using sl(2) f(7) by (cases "slot = 1") simp_all
    ultimately have "2 < slot" using n by simp
    with sl(3) f(8) [of 2] show False by simp
  qed
  with sl(4) have d: "dirent_at img1 0 2 = new_dirent 2 hf" by simp
  show ?thesis
    using run r(5) d r(6) by (simp add: f(9))
qed

text \<open>
  The read-only part of the adder on an image with a sound layout, in terms of the lists of
  free inodes and free data blocks.
\<close>

lemma sane_plan:
  assumes v: "sane_image img" and small: "length fb < 2 ^ 63"
  shows "adder_plan img fb =
     Some (if DIRECT_MAX < max 1 (ceil_div (length fb) BS) then Inl FileTooLarge
           else if free_list img BS (unat (inode_count (image_sb img))) = [] then Inl NoFreeInode
           else if length (free_list img (2 * BS) (unat (data_region_blocks (image_sb img))))
                     < max 1 (ceil_div (length fb) BS)
           then Inl NoFreeBlocks
           else Inr (image_sb img,
                     of_nat (hd (free_list img BS (unat (inode_count (image_sb img))))),
                     map of_nat (take (max 1 (ceil_div (length fb) BS))
                       (free_list img (2 * BS) (unat (data_region_blocks (image_sb img)))))))"
proof -
  define sb where "sb = image_sb img"
  define need where "need = max 1 (ceil_div (length fb) BS)"
  define fli where "fli = free_list img BS (unat (inode_count sb))"
  define fld where "fld = free_list img (2 * BS) (unat (data_region_blocks sb))"
  note vd = sane_imageD [OF v, folded sb_def]
  note o = geometry_offsets [OF vd(3)]
  note r = geometry_regions [OF vd(3)]
  note b = geometry_bounds [OF vd(3)]
  note un = unat_need_blocks [OF small, folded need_def]
  have sb': "superblock_of_bytes (take SB_SIZE img) = sb" by (simp add: sb_def image_sb_def)
  have big: "3 * BS \<le> length img" using r(5,6) by simp
  have nb: "need_blocks_of (of_nat (length fb)) > 12 \<longleftrightarrow> DIRECT_MAX < need"
    unfolding word_less_nat_alt un by simp
  have ib: "\<forall>j. unat (0 :: u64) \<le> j \<and> j < unat (inode_count sb) \<longrightarrow> BS + j div 8 < length img"
    using r(1) big by fastforce
  have fi: "find_free_inode img (inode_bm_off sb) (inode_count sb) 0
        = Some (case fli of [] \<Rightarrow> - 1 | j # _ \<Rightarrow> of_nat j)"
    using find_free_inode_spec [OF ib] by (simp add: o free_list_def fli_def)
  have db: "\<forall>j. unat (0 :: u64) \<le> j \<and> j < unat (data_region_blocks sb) \<longrightarrow>
              2 * BS + j div 8 < length img"
    using r(2) big by fastforce
  have fd: "find_free_blocks img (data_bm_off sb) (data_region_blocks sb)
              (need_blocks_of (of_nat (length fb))) 0 []
        = Some (map of_nat (take need fld))"
    using find_free_blocks_spec [OF db, of "[]" "need_blocks_of (of_nat (length fb))"]
    by (simp add: o free_list_def fld_def un take_map)
  have ln: "(of_nat (length (map of_nat (take need fld) :: u32 list)) :: u64)
              < need_blocks_of (of_nat (length fb)) \<longleftrightarrow> length fld < need"
  proof -
    have "length (take need fld) \<le> unat (need_blocks_of (of_nat (length fb)))"
      unfolding un by simp
    then have "unat (of_nat (length (take need fld)) :: u64) = length (take need fld)"
      by (metis le_unat_uoi)
    then show ?thesis
      unfolding word_less_nat_alt un by auto
  qed
  show ?thesis
  proof (cases "DIRECT_MAX < need")
    case True
    then show ?thesis
      unfolding adder_plan_def Let_def sb' need_def [symmetric]
      using vd(1,2) nb by simp
  next
    case n12: False
    show ?thesis
    proof (cases fli)
      case Nil
      then show ?thesis
        unfolding adder_plan_def Let_def sb' need_def [symmetric] sb_def [symmetric]
          fli_def [symmetric]
        using vd(1,2) nb n12 fi minus_one_sless by simp
    next
      case (Cons j js)
      then have "j \<in> set (free_list img BS (unat (inode_count sb)))" by (simp add: fli_def)
      then have "j < unat (inode_count sb)" by (simp add: free_list_props)
      with b(2) have j31: "j < 2 ^ 31" by simp
      note s = unat_scast_small(2) [OF j31]
      show ?thesis
        unfolding adder_plan_def Let_def sb' need_def [symmetric] sb_def [symmetric]
          fli_def [symmetric] fld_def [symmetric]
        using vd(1,2) nb n12 fi fd ln s Cons by simp
    qed
  qed
qed

section \<open>The two late failures\<close>

lemma bit_get_clear_blocks:
  assumes "clear_blocks img dbm bs = Some img'"
  shows "bit_get img' dbm j = map_option (\<lambda>x. x \<and> j \<notin> unat ` set bs) (bit_get img dbm j)"
  using assms
proof (induction bs arbitrary: img)
  case Nil
  then show ?case by (cases "bit_get img dbm j") simp_all
next
  case (Cons b bs)
  then obtain img1 where s1: "bit_clear img dbm (unat b) = Some img1"
    and s2: "clear_blocks img1 dbm bs = Some img'"
    by (auto simp: bind_eq_Some_conv)
  show ?case
    unfolding Cons.IH [OF s2] bit_get_bit_clear [OF s1]
    by (cases "bit_get img dbm j") auto
qed

lemma adder_link_late:
  assumes "adder_link img3 sb fi bf hf now' = Some (Inl (e, buf))"
  shows "e = CorruptRootPointer \<and> buf = img3 \<or>
         e = NoFreeDirEntry \<and> adder_rollback img3 sb (unat (scast fi :: u64)) bf = Some buf"
  using assms unfolding adder_link_def Let_def
  by (auto simp: bind_eq_Some_conv split: if_splits option.splits)

lemma add_file_late:
  assumes "add_file img hf fb now now' = Some (Inl (e, buf))"
    and "e = CorruptRootPointer \<or> e = NoFreeDirEntry"
  obtains sb fi bf img3 where
    "adder_plan img fb = Some (Inr (sb, fi, bf))"
    "adder_alloc img sb fi bf fb now = Some img3"
    "e = CorruptRootPointer \<and> buf = img3 \<or>
     e = NoFreeDirEntry \<and> adder_rollback img3 sb (unat (scast fi :: u64)) bf = Some buf"
proof -
  from assms(1) obtain plan where p: "adder_plan img fb = Some plan"
    by (auto simp: add_file_def bind_eq_Some_conv)
  show ?thesis
  proof (cases plan)
    case (Inl e')
    with assms(1) p have "e' = e" by (simp add: add_file_def)
    with adder_plan_Inl [of img fb e'] p Inl assms(2) show ?thesis by auto
  next
    case (Inr r)
    obtain sb fi bf where r: "r = (sb, fi, bf)" by (cases r) auto
    with assms(1) p Inr obtain img3 where
      a: "adder_alloc img sb fi bf fb now = Some img3"
      and l: "adder_link img3 sb fi bf hf now' = Some (Inl (e, buf))"
      by (auto simp: add_file_def bind_eq_Some_conv)
    from that [OF _ a adder_link_late [OF l]] p Inr r show ?thesis by simp
  qed
qed

lemma frame_adder_rollback:
  assumes "adder_rollback img3 sb fin bf = Some buf"
  shows "frame img3 buf
           ({bit_at (inode_bm_off sb) fin} \<union> (\<lambda>b. bit_at (data_bm_off sb) (unat b)) ` set bf)"
proof -
  from assms obtain img4 where r1: "bit_clear img3 (inode_bm_off sb) fin = Some img4"
    and r2: "clear_blocks img4 (data_bm_off sb) bf = Some buf"
    by (auto simp: adder_rollback_def bind_eq_Some_conv)
  show ?thesis
    by (rule frame_trans [OF frame_bit_clear [OF r1] frame_clear_blocks [OF r2]])
qed

text \<open>
  The buffer left by a late failure differs from the input at most in the bits the
  allocation may change.
\<close>

lemma frame_late:
  assumes "add_file img hf fb now now' = Some (Inl (e, buf))"
    and "e = CorruptRootPointer \<or> e = NoFreeDirEntry"
  shows "\<exists>sb fi bf. adder_plan img fb = Some (Inr (sb, fi, bf)) \<and>
           frame img buf
             ({bit_at (inode_bm_off sb) (unat (scast fi :: u64))} \<union>
              blocks_touched (data_bm_off sb) (data_region_off sb) bf \<union>
              bytes_at (inode_tbl_off sb + unat (scast fi :: u64) * INODE_SIZE) INODE_SIZE)"
proof -
  from assms obtain sb fi bf img3 where
    plan: "adder_plan img fb = Some (Inr (sb, fi, bf))"
    and alloc: "adder_alloc img sb fi bf fb now = Some img3"
    and l: "e = CorruptRootPointer \<and> buf = img3 \<or>
       e = NoFreeDirEntry \<and> adder_rollback img3 sb (unat (scast fi :: u64)) bf = Some buf"
    by (rule add_file_late)
  note fa = frame_adder_alloc [OF alloc]
  from l have "frame img buf
             ({bit_at (inode_bm_off sb) (unat (scast fi :: u64))} \<union>
              blocks_touched (data_bm_off sb) (data_region_off sb) bf \<union>
              bytes_at (inode_tbl_off sb + unat (scast fi :: u64) * INODE_SIZE) INODE_SIZE)"
  proof
    assume "e = CorruptRootPointer \<and> buf = img3"
    with fa show ?thesis by simp
  next
    assume "e = NoFreeDirEntry \<and> adder_rollback img3 sb (unat (scast fi :: u64)) bf = Some buf"
    then have "adder_rollback img3 sb (unat (scast fi :: u64)) bf = Some buf" ..
    from frame_trans [OF fa frame_adder_rollback [OF this]] show ?thesis
      by (rule frame_mono) (auto simp: blocks_touched_def)
  qed
  with plan show ?thesis by blast
qed

text \<open>
  The rollback on an image with a sound layout: both bitmaps are as in the input, the new
  inode's record stays in the inode table, and the buffer differs from the input only in
  that record and in the chosen data blocks.
\<close>

lemma sane_rollback:
  assumes v: "sane_image img"
    and plan: "adder_plan img fb = Some (Inr (sb, fi, bf))"
    and alloc: "adder_alloc img sb fi bf fb now = Some img3"
    and rb: "adder_rollback img3 sb (unat (scast fi :: u64)) bf = Some buf"
  shows "\<And>j. j < 8 * BS \<Longrightarrow> bit_get buf BS j = bit_get img BS j"
    and "\<And>j. j < 8 * BS \<Longrightarrow> bit_get buf (2 * BS) j = bit_get img (2 * BS) j"
    and "take INODE_SIZE (drop (3 * BS + unat (scast fi :: u64) * INODE_SIZE) buf)
           = inode_bytes (file_inode (of_nat (length fb)) now bf)"
    and "frame img buf
           (bytes_at (3 * BS + unat (scast fi :: u64) * INODE_SIZE) INODE_SIZE \<union>
            (\<Union>b \<in> set bf. bytes_at (data_region_off sb + unat b * BS) BS))"
proof -
  note vd = sane_imageD [OF v]
  note p = adder_plan_valid [OF v plan]
  note c = adder_plan_chosen [OF v plan]
  have g: "geometry sb (length img)" using vd(3) p(1) by simp
  note o = geometry_offsets(1,2,3) [OF g]
  note r = geometry_regions [OF g]
  note gb = geometry_bounds [OF g]
  define fin where "fin = unat (scast fi :: u64)"
  define D where "D = data_region_off sb"
  note cf = c(1,2,3) [folded fin_def]
  note a = valid_alloc(2) [OF v plan alloc, folded fin_def D_def]
  have l3: "length img3 = length img" using a by simp
  from rb obtain img4 where r1: "bit_clear img3 BS fin = Some img4"
    and r2: "clear_blocks img4 (2 * BS) bf = Some buf"
    by (auto simp: adder_rollback_def o bind_eq_Some_conv fin_def)
  have f1: "frame img3 img4 {bit_at BS fin}" by (rule frame_bit_clear [OF r1])
  have f2: "frame img4 buf ((\<lambda>b. bit_at (2 * BS) (unat b)) ` set bf)"
    by (rule frame_clear_blocks [OF r2])
  have f: "frame img3 buf ({bit_at BS fin} \<union> (\<lambda>b. bit_at (2 * BS) (unat b)) ` set bf)"
    by (rule frame_trans [OF f1 f2])
  have i1: "BS + fin div 8 < 2 * BS" using r(1) [OF cf(2)] .
  have blk: "\<forall>b \<in> set bf. 2 * BS + unat b div 8 < 3 * BS" using c(4) r(2) by auto
  have sl: "3 * BS + fin * INODE_SIZE + INODE_SIZE \<le> D"
    using r(3) [OF cf(2)] by (simp add: D_def)
  have DL: "3 * BS \<le> D" "D \<le> length img" using r(5,6) by (simp_all add: D_def)
  show ib: "bit_get buf BS j = bit_get img BS j" if j: "j < 8 * BS" for j
  proof -
    have "bit_at BS j \<notin> (\<lambda>b. bit_at (2 * BS) (unat b)) ` set bf"
      using j by (auto simp: bit_at_def)
    from bit_get_frame [OF f2 this] bit_get_bit_clear [OF r1, of j]
    have "bit_get buf BS j = map_option (\<lambda>b. b \<and> j \<noteq> fin) (bit_get img3 BS j)"
      by simp
    also have "\<dots> = map_option (\<lambda>b. b \<and> j \<noteq> fin)
                   (map_option (\<lambda>x. x \<or> j = fin) (bit_get img BS j))"
      using a j by simp
    also have "\<dots> = bit_get img BS j"
      using cf(3) by (cases "bit_get img BS j"; cases "j = fin") auto
    finally show ?thesis .
  qed
  show db: "bit_get buf (2 * BS) j = bit_get img (2 * BS) j" if j: "j < 8 * BS" for j
  proof -
    have "bit_at (2 * BS) j \<noteq> bit_at BS fin"
      using i1 by (auto simp: bit_at_def)
    then have "bit_at (2 * BS) j \<notin> {bit_at BS fin}" by simp
    from bit_get_frame [OF f1 this] bit_get_clear_blocks [OF r2, of j]
    have "bit_get buf (2 * BS) j
            = map_option (\<lambda>x. x \<and> j \<notin> unat ` set bf) (bit_get img3 (2 * BS) j)"
      by simp
    also have "\<dots> = map_option (\<lambda>x. x \<and> j \<notin> unat ` set bf)
                   (map_option (\<lambda>x. x \<or> j \<in> unat ` set bf) (bit_get img (2 * BS) j))"
      using a j by simp
    also have "\<dots> = bit_get img (2 * BS) j"
    proof (cases "j \<in> unat ` set bf")
      case True
      then have "bit_get img (2 * BS) j = Some False" using c(4) by auto
      then show ?thesis using True by simp
    next
      case False
      then show ?thesis by (cases "bit_get img (2 * BS) j") auto
    qed
    finally show ?thesis .
  qed
  have "take INODE_SIZE (drop (3 * BS + fin * INODE_SIZE) buf)
        = take INODE_SIZE (drop (3 * BS + fin * INODE_SIZE) img3)"
    by (rule take_drop_eq_frame [OF f])
       (use l3 i1 blk sl DL in \<open>auto simp: bit_at_def\<close>)
  with a show "take INODE_SIZE (drop (3 * BS + fin * INODE_SIZE) buf)
           = inode_bytes (file_inode (of_nat (length fb)) now bf)" by simp
  have fr: "frame img img3
           ({bit_at BS fin} \<union> blocks_touched (2 * BS) D bf \<union>
            bytes_at (3 * BS + fin * INODE_SIZE) INODE_SIZE)"
    using a by simp
  have big: "frame img buf
           (({bit_at BS fin} \<union> blocks_touched (2 * BS) D bf \<union>
            bytes_at (3 * BS + fin * INODE_SIZE) INODE_SIZE) \<union>
            ({bit_at BS fin} \<union> (\<lambda>b. bit_at (2 * BS) (unat b)) ` set bf))"
    by (rule frame_trans [OF fr f])
  have lb: "length buf = length img" using frame_length [OF big] .
  show "frame img buf
           (bytes_at (3 * BS + fin * INODE_SIZE) INODE_SIZE \<union>
            (\<Union>b \<in> set bf. bytes_at (D + unat b * BS) BS))"
    unfolding frame_def
  proof (intro conjI allI impI)
    show "length buf = length img" by (rule lb)
  next
    fix a k assume d: "a < length img \<and> bit (buf ! a) k \<noteq> bit (img ! a) k"
    then have m: "(a, k) \<in> ({bit_at BS fin} \<union> blocks_touched (2 * BS) D bf \<union>
            bytes_at (3 * BS + fin * INODE_SIZE) INODE_SIZE) \<union>
            ({bit_at BS fin} \<union> (\<lambda>b. bit_at (2 * BS) (unat b)) ` set bf)"
      using big unfolding frame_def by blast
    have n1: "(a, k) \<noteq> bit_at BS fin"
    proof
      assume e: "(a, k) = bit_at BS fin"
      have "fin < 8 * BS" using cf(2) gb(2) by simp
      from ib [OF this] d e lb show False
        by (simp add: bit_get_in bit_at_def)
    qed
    have n2: "(a, k) \<noteq> bit_at (2 * BS) (unat b)" if "b \<in> set bf" for b
    proof
      assume e: "(a, k) = bit_at (2 * BS) (unat b)"
      have "unat b < 8 * BS" using c(4) that gb(3) by fastforce
      from db [OF this] d e lb show False
        by (simp add: bit_get_in bit_at_def)
    qed
    from m n1 n2 show "(a, k) \<in> bytes_at (3 * BS + fin * INODE_SIZE) INODE_SIZE \<union>
            (\<Union>b \<in> set bf. bytes_at (D + unat b * BS) BS)"
      by (auto simp: blocks_touched_def)
  qed
qed

section \<open>Images obtained by overwriting bytes of another image\<close>

lemma frame_free_list:
  assumes "frame img img' S" "\<forall>j < n. bit_at bm j \<notin> S"
  shows "free_list img' bm n = free_list img bm n"
  unfolding free_list_def
  by (rule filter_cong [OF refl]) (use assms bit_get_frame [OF assms(1)] in auto)

lemma frame_image_sb:
  assumes "frame img img' S" "SB_SIZE \<le> length img" "\<forall>a k. (a, k) \<in> S \<longrightarrow> SB_SIZE \<le> a"
  shows "image_sb img' = image_sb img"
proof -
  have "take SB_SIZE (drop 0 img') = take SB_SIZE (drop 0 img)"
    by (rule take_drop_eq_frame [OF assms(1)]) (use assms(2,3) in auto)
  then show ?thesis by (simp add: image_sb_def)
qed

lemma frame_inode_at:
  assumes "frame img img' S" "3 * BS + j * INODE_SIZE + INODE_SIZE \<le> length img"
    "\<forall>a k. (a, k) \<in> S \<longrightarrow> a < 3 * BS + j * INODE_SIZE \<or> 3 * BS + j * INODE_SIZE + INODE_SIZE \<le> a"
  shows "inode_at img' j = inode_at img j"
proof -
  have "take INODE_SIZE (drop (3 * BS + j * INODE_SIZE) img')
      = take INODE_SIZE (drop (3 * BS + j * INODE_SIZE) img)"
    by (rule take_drop_eq_frame [OF assms(1,2)]) (use assms(3) in fastforce)
  then show ?thesis by (simp add: inode_at_def)
qed

lemma frame_sane:
  assumes v: "sane_image img" and f: "frame img img' S"
    and s: "\<forall>a k. (a, k) \<in> S \<longrightarrow> SB_SIZE \<le> a \<and> a \<noteq> BS"
  shows "sane_image img'" "image_sb img' = image_sb img"
proof -
  note vd = sane_imageD [OF v]
  show sb: "image_sb img' = image_sb img"
    by (rule frame_image_sb [OF f]) (use vd(1) s in auto)
  have "bit_at BS 0 \<notin> S" using s by (auto simp: bit_at_def)
  from bit_get_frame [OF f this] have "bit_get img' BS 0 = Some True" using vd(4) by simp
  then show "sane_image img'"
    using vd sb frame_length [OF f] by (simp add: sane_image_def)
qed

text \<open>The image formatted with 180 KiB and 128 inodes.\<close>

lemma image_180:
  assumes run0: "mkfs_builder 180 128 t t' = Some (Inr img)"
  shows "length img = 184320" "image_sb img = new_superblock 45 128 4 7 38 t"
    "data_region_off (image_sb img) = 28672" "valid_image img"
    "free_list img BS 128 = [1..<128]" "free_list img (2 * BS) 38 = [1..<38]"
    "inode_at img 0 = root_dir_inode t'"
    "take INODE_SIZE (drop (3 * BS + INODE_SIZE) img) = replicate INODE_SIZE 0"
    "slot_ino img 0 0 = 1" "slot_ino img 0 1 = 1"
    "\<And>s. 2 \<le> s \<Longrightarrow> s < 64 \<Longrightarrow> slot_ino img 0 s = 0"
proof -
  note b = builder_valid_format [OF builder_valid_180_128]
  have d: "(180 :: u64) div 4 = 45" by simp
  from run0 have fmt: "format 45 128 t t' = Some (Inr img)"
    using b(1) [of t t'] by (simp add: d)
  have fit: "fits 45 128" using b(2) by (simp add: d)
  have t1: "1 \<le> unat (4 :: u64)" by simp
  note f = fresh_image [OF fit layout_example t1 fmt]
  note p = fresh_plan [OF builder_valid_180_128 run0, of "[]"]
  show "length img = 184320" using f(1) by simp
  show sb: "image_sb img = new_superblock 45 128 4 7 38 t" by (rule f(2))
  show "data_region_off (image_sb img) = 28672"
    unfolding sb by (simp add: data_region_off_def)
  show "valid_image img" using p(1) by simp
  show "free_list img BS 128 = [1..<128]" using p(3) by (simp add: sb)
  show "free_list img (2 * BS) 38 = [1..<38]" using p(4) by (simp add: sb)
  show "inode_at img 0 = root_dir_inode t'" using p(9) by simp
  show "take INODE_SIZE (drop (3 * BS + INODE_SIZE) img) = replicate INODE_SIZE 0"
    using f(6) [of 1] by simp
  show "slot_ino img 0 0 = 1" "slot_ino img 0 1 = 1" using p(6,7) by simp_all
  show "slot_ino img 0 s = 0" if "2 \<le> s" "s < 64" for s using p(8) [OF _ that] by simp
qed

text \<open>The same image with every bit of the first five bytes of the data bitmap set.\<close>

lemma image_full_bitmap:
  assumes run0: "mkfs_builder 180 128 t t' = Some (Inr img0)"
  shows "\<exists>img. memcpy img0 (2 * BS) (replicate 5 255) = Some img"
    and "memcpy img0 (2 * BS) (replicate 5 255) = Some img \<Longrightarrow>
         sane_image img \<and> image_sb img = image_sb img0 \<and>
         free_list img BS 128 = [1..<128] \<and> free_list img (2 * BS) 38 = []"
proof -
  note i = image_180 [OF run0]
  show "\<exists>img. memcpy img0 (2 * BS) (replicate 5 255) = Some img"
    using i(1) by (simp add: memcpy_def)
  assume m: "memcpy img0 (2 * BS) (replicate 5 255) = Some img"
  have f: "frame img0 img (bytes_at (2 * BS) 5)" using frame_memcpy [OF m] by simp
  have s: "sane_image img" "image_sb img = image_sb img0"
    by (rule frame_sane [OF valid_imageD(7) [OF i(4)] f]; simp add: bytes_at_def)+
  have fi: "free_list img BS 128 = [1..<128]"
    unfolding i(5) [symmetric]
    by (rule frame_free_list [OF f]) (auto simp: bit_at_def bytes_at_def)
  have "bit_get img (2 * BS) j = Some True" if "j < 38" for j
  proof -
    from that have j8: "j div 8 < 5" by simp
    have l: "2 * BS + j div 8 < length img0" using i(1) j8 by simp
    have "img ! (2 * BS + j div 8) = 255"
      using memcpy_nth [OF m l] j8 by simp
    moreover have "(255 :: u8) = - 1" by simp
    moreover have "bit (- 1 :: u8) (j mod 8)" by simp
    ultimately show ?thesis
      using l memcpy_length [OF m] by (simp add: bit_get_in)
  qed
  then have "free_list img (2 * BS) 38 = []" by (simp add: free_list_def)
  with s fi show "sane_image img \<and> image_sb img = image_sb img0 \<and>
         free_list img BS 128 = [1..<128] \<and> free_list img (2 * BS) 38 = []" by simp
qed

text \<open>The same image with every byte of the root directory block overwritten by 1.\<close>

lemma image_full_dir:
  assumes run0: "mkfs_builder 180 128 t t' = Some (Inr img0)"
  shows "\<exists>img. memcpy img0 (7 * BS) (replicate BS 1) = Some img"
    and "memcpy img0 (7 * BS) (replicate BS 1) = Some img \<Longrightarrow>
         valid_image img \<and> image_sb img = image_sb img0 \<and>
         free_list img BS 128 = [1..<128] \<and> free_list img (2 * BS) 38 = [1..<38] \<and>
         unat (direct (inode_at img 0) ! 0) = 0 \<and>
         (\<forall>s < 64. slot_ino img 0 s \<noteq> 0) \<and>
         take INODE_SIZE (drop (3 * BS + INODE_SIZE) img) = replicate INODE_SIZE 0"
proof -
  note i = image_180 [OF run0]
  note vd = valid_imageD [OF i(4)]
  show "\<exists>img. memcpy img0 (7 * BS) (replicate BS 1) = Some img"
    using i(1) by (simp add: memcpy_def)
  assume m: "memcpy img0 (7 * BS) (replicate BS 1) = Some img"
  have f: "frame img0 img (bytes_at (7 * BS) BS)" using frame_memcpy [OF m] by simp
  have l: "length img = length img0" using m by (rule memcpy_length)
  have s: "sane_image img" "image_sb img = image_sb img0"
    by (rule frame_sane [OF vd(7) f]; simp add: bytes_at_def)+
  have fi: "free_list img BS 128 = [1..<128]"
    unfolding i(5) [symmetric]
    by (rule frame_free_list [OF f]) (auto simp: bit_at_def bytes_at_def)
  have fd: "free_list img (2 * BS) 38 = [1..<38]"
    unfolding i(6) [symmetric]
    by (rule frame_free_list [OF f]) (auto simp: bit_at_def bytes_at_def)
  have r: "inode_at img 0 = inode_at img0 0"
    by (rule frame_inode_at [OF f]) (use i(1) in \<open>auto simp: bytes_at_def\<close>)
  have d: "unat (direct (inode_at img 0) ! 0) = 0" by (simp add: r i(7))
  have "bit_at (2 * BS) 0 \<notin> bytes_at (7 * BS) BS" by (simp add: bit_at_def bytes_at_def)
  from bit_get_frame [OF f this] have b: "bit_get img (2 * BS) 0 = Some True"
    using vd(6) by (simp add: i(7))
  have v: "valid_image img"
    using s b d vd(5) by (simp add: valid_image_def i(7))
  have sl: "slot_ino img 0 s \<noteq> 0" if "s < 64" for s
  proof -
    have "take 4 (drop (7 * BS + DIRENT_SIZE * s) img) = replicate 4 1"
    proof (rule nth_equalityI)
      show "length (take 4 (drop (7 * BS + DIRENT_SIZE * s) img)) = length (replicate 4 (1 :: u8))"
        using that l i(1) by simp
    next
      fix k assume "k < length (take 4 (drop (7 * BS + DIRENT_SIZE * s) img))"
      then have k: "k < 4" by simp
      have a: "7 * BS + DIRENT_SIZE * s + k < length img0" using that k i(1) by simp
      have "img ! (7 * BS + DIRENT_SIZE * s + k) = 1"
        using memcpy_nth [OF m a] that k by simp
      then show "take 4 (drop (7 * BS + DIRENT_SIZE * s) img) ! k = replicate 4 1 ! k"
        using k a l by simp
    qed
    moreover have "replicate 4 (1 :: u8) = [1, 1, 1, 1]" by (simp add: numeral_eq_Suc)
    moreover have "(le_word [1, 1, 1, 1 :: u8] :: u32) = 16843009" by simp
    ultimately show ?thesis
      by (simp add: slot_ino_def s(2) i(3))
  qed
  have z: "take INODE_SIZE (drop (3 * BS + INODE_SIZE) img) = replicate INODE_SIZE 0"
    unfolding i(8) [symmetric]
    by (rule take_drop_eq_frame [OF f]) (use i(1) in \<open>auto simp: bytes_at_def\<close>)
  show "valid_image img \<and> image_sb img = image_sb img0 \<and>
         free_list img BS 128 = [1..<128] \<and> free_list img (2 * BS) 38 = [1..<38] \<and>
         unat (direct (inode_at img 0) ! 0) = 0 \<and>
         (\<forall>s < 64. slot_ino img 0 s \<noteq> 0) \<and>
         take INODE_SIZE (drop (3 * BS + INODE_SIZE) img) = replicate INODE_SIZE 0"
    using v s(2) fi fd d sl z by simp
qed


text \<open>The same image with the root inode's first direct pointer overwritten by \<open>0xFFFFFFFF\<close>.\<close>

lemma image_bad_root:
  assumes run0: "mkfs_builder 180 128 t t' = Some (Inr img0)"
  shows "\<exists>img. memcpy img0 (3 * BS + 44) (replicate 4 255) = Some img"
    and "memcpy img0 (3 * BS + 44) (replicate 4 255) = Some img \<Longrightarrow>
         sane_image img \<and> image_sb img = image_sb img0 \<and>
         free_list img BS 128 = [1..<128] \<and> free_list img (2 * BS) 38 = [1..<38] \<and>
         direct (inode_at img 0) ! 0 = 0xFFFFFFFF"
proof -
  note i = image_180 [OF run0]
  note vd = valid_imageD [OF i(4)]
  show "\<exists>img. memcpy img0 (3 * BS + 44) (replicate 4 255) = Some img"
    using i(1) by (simp add: memcpy_def)
  assume m: "memcpy img0 (3 * BS + 44) (replicate 4 255) = Some img"
  have f: "frame img0 img (bytes_at (3 * BS + 44) 4)" using frame_memcpy [OF m] by simp
  have l: "length img = length img0" using m by (rule memcpy_length)
  have s: "sane_image img" "image_sb img = image_sb img0"
    by (rule frame_sane [OF vd(7) f]; simp add: bytes_at_def)+
  have fi: "free_list img BS 128 = [1..<128]"
    unfolding i(5) [symmetric]
    by (rule frame_free_list [OF f]) (auto simp: bit_at_def bytes_at_def)
  have fd: "free_list img (2 * BS) 38 = [1..<38]"
    unfolding i(6) [symmetric]
    by (rule frame_free_list [OF f]) (auto simp: bit_at_def bytes_at_def)
  from peek_memcpy_same [OF m] have "peek img (3 * BS + 44) 4 = Some (replicate 4 255)" by simp
  then have t: "take 4 (drop (3 * BS + 44) img) = replicate 4 255"
    by (simp add: peek_def split: if_splits)
  have "direct (inode_at img 0) ! 0 = le_word (take 4 (drop (3 * BS + 44) img))"
    using l i(1) by (simp add: inode_at_def inode_of_bytes_def field_def take_drop add.commute)
  also have "\<dots> = le_word [255, 255, 255, 255 :: u8]"
    unfolding t by (simp add: numeral_eq_Suc)
  also have "\<dots> = (0xFFFFFFFF :: u32)" by simp
  finally have d: "direct (inode_at img 0) ! 0 = 0xFFFFFFFF" .
  show "sane_image img \<and> image_sb img = image_sb img0 \<and>
         free_list img BS 128 = [1..<128] \<and> free_list img (2 * BS) 38 = [1..<38] \<and>
         direct (inode_at img 0) ! 0 = 0xFFFFFFFF"
    using s fi fd d by simp
qed

lemma file_inode_bytes_nonzero:
  assumes "length bf \<le> DIRECT_MAX"
  shows "inode_bytes (file_inode sz t bf) \<noteq> replicate INODE_SIZE 0"
proof
  assume e: "inode_bytes (file_inode sz t bf) = replicate INODE_SIZE 0"
  have "length (direct (file_inode sz t bf)) = DIRECT_MAX" using assms by simp
  from inode_of_bytes_inverse [OF this]
  have "mode (inode_of_bytes (inode_bytes (file_inode sz t bf))) = 0x8000" by simp
  moreover have "mode (inode_of_bytes (replicate INODE_SIZE 0)) = 0"
    by (simp add: inode_of_bytes_def field_def le_word_replicate_0)
  ultimately show False unfolding e by simp
qed

text \<open>The adder on the image with the full root directory, and on the one with the bad root pointer.\<close>

lemma full_dir_run:
  assumes run0: "mkfs_builder 180 128 t t' = Some (Inr img0)"
    and m: "memcpy img0 (7 * BS) (replicate BS 1) = Some img"
  shows "valid_image img"
    and "\<exists>buf. add_file img hf [] now now' = Some (Inl (NoFreeDirEntry, buf)) \<and> buf \<noteq> img"
proof -
  note i = image_180 [OF run0]
  note f = image_full_dir(2) [OF run0 m]
  from f show v: "valid_image img" by simp
  note vd = valid_imageD [OF v]
  have sb: "image_sb img = new_superblock 45 128 4 7 38 t" using f i(2) by simp
  have fl: "free_list img BS 128 = [1..<128]" "free_list img (2 * BS) 38 = [1..<38]"
    using f by simp_all
  have c: "max 1 (ceil_div (length ([] :: u8 list)) BS) = 1" by (simp add: ceil_div_def)
  from sane_plan [OF vd(7), of "[]"] fl obtain fi bf where
    plan: "adder_plan img [] = Some (Inr (image_sb img, fi, bf))"
    unfolding c by (simp add: sb)
  note p = adder_plan_valid [OF vd(7) plan]
  have fin: "unat (scast fi :: u64) = 1" using p(3) fl(1) by (simp add: sb)
  have lbf: "length bf \<le> DIRECT_MAX"
    using p(6) adder_plan_Inr(4) [OF plan] by (simp add: word_le_nat_alt)
  have full: "\<forall>s < 64. slot_ino img (unat (direct (inode_at img 0) ! 0)) s \<noteq> 0"
    using f by simp
  from valid_dir_full [OF v plan full, of hf now now'] obtain buf where
    run: "add_file img hf [] now now' = Some (Inl (NoFreeDirEntry, buf))"
    and b: "take INODE_SIZE (drop (3 * BS + INODE_SIZE) buf)
             = inode_bytes (file_inode (of_nat (length ([] :: u8 list))) now bf)"
    unfolding fin by auto
  have "buf \<noteq> img"
  proof
    assume "buf = img"
    with b f have "inode_bytes (file_inode (of_nat (length ([] :: u8 list))) now bf)
       = replicate INODE_SIZE 0" by simp
    with file_inode_bytes_nonzero [OF lbf] show False by blast
  qed
  with run show "\<exists>buf. add_file img hf [] now now' = Some (Inl (NoFreeDirEntry, buf)) \<and> buf \<noteq> img"
    by blast
qed

lemma bad_root_run:
  assumes run0: "mkfs_builder 180 128 t t' = Some (Inr img0)"
    and m: "memcpy img0 (3 * BS + 44) (replicate 4 255) = Some img"
  shows "sane_image img"
    and "\<exists>buf. add_file img hf [] now now' = Some (Inl (CorruptRootPointer, buf)) \<and> buf \<noteq> img"
proof -
  note i = image_180 [OF run0]
  note f = image_bad_root(2) [OF run0 m]
  from f show v: "sane_image img" by simp
  have sb: "image_sb img = new_superblock 45 128 4 7 38 t" using f i(2) by simp
  have fl: "free_list img BS 128 = [1..<128]" "free_list img (2 * BS) 38 = [1..<38]"
    using f by simp_all
  have c: "max 1 (ceil_div (length ([] :: u8 list)) BS) = 1" by (simp add: ceil_div_def)
  from sane_plan [OF v, of "[]"] fl obtain fi bf where
    plan: "adder_plan img [] = Some (Inr (image_sb img, fi, bf))"
    unfolding c by (simp add: sb)
  have d: "direct (inode_at img 0) ! 0 = 0xFFFFFFFF" using f by simp
  have bad: "unat (data_region_blocks (image_sb img)) \<le> unat (direct (inode_at img 0) ! 0)"
    unfolding d sb by simp
  from sane_corrupt_root [OF v plan bad, of hf now now'] obtain buf where
    run: "add_file img hf [] now now' = Some (Inl (CorruptRootPointer, buf))"
    and b: "bit_get buf BS (unat (scast fi :: u64)) = Some True"
      "bit_get img BS (unat (scast fi :: u64)) = Some False"
    by blast
  from b have "buf \<noteq> img" by auto
  with run show "\<exists>buf. add_file img hf [] now now' = Some (Inl (CorruptRootPointer, buf)) \<and> buf \<noteq> img"
    by blast
qed

section \<open>The claims\<close>

text \<open>
  Claim C4. Whenever the sizes fit 64 bits, the formatter fails with the capacity error
  exactly when the data region would have zero or fewer blocks; otherwise the superblock it
  writes at byte 0 of the image puts the inode bitmap at block 1 and the data bitmap at
  block 2 (one block each), the inode table at block 3 with
  \<open>ceil(inode_count \<times> 128 / 4096)\<close> blocks, and the data region right behind it with all
  remaining blocks. For 45 blocks and 128 inodes the three numbers are 4, 7 and 38.
\<close>

theorem C4_layout:
  assumes "fits tb ic"
  shows "(format tb ic now now' = Some (Inl CapacityError)
            \<longleftrightarrow> int (unat tb) - int (3 + ceil_div (unat ic * INODE_SIZE) BS) \<le> 0)
       \<and> (0 < int (unat tb) - int (3 + ceil_div (unat ic * INODE_SIZE) BS) \<longrightarrow>
            (\<exists>img sb. format tb ic now now' = Some (Inr img)
               \<and> length img = unat tb * BS
               \<and> sb = superblock_of_bytes (take SB_SIZE img)
               \<and> inode_bitmap_start sb = 1 \<and> inode_bitmap_blocks sb = 1
               \<and> data_bitmap_start sb = 2 \<and> data_bitmap_blocks sb = 1
               \<and> inode_table_start sb = 3
               \<and> unat (inode_table_blocks sb) = ceil_div (unat ic * INODE_SIZE) BS
               \<and> unat (data_region_start sb) = 3 + unat (inode_table_blocks sb)
               \<and> unat (data_region_blocks sb) = unat tb - unat (data_region_start sb)
               \<and> unat (data_region_start sb) + unat (data_region_blocks sb) = unat tb))
       \<and> layout 45 128 = Inr (4, 7, 38)"
proof -
  from assms have f1: "unat ic * 128 + 4095 < 2 ^ 64" by (simp add: fits_def)
  have cd: "ceil_div (unat ic * INODE_SIZE) BS = (unat ic * 128 + 4095) div 4096"
    by (simp add: ceil_div_def)
  have i1: "int (unat tb) - int (3 + ceil_div (unat ic * INODE_SIZE) BS) \<le> 0
            \<longleftrightarrow> unat tb \<le> 3 + ceil_div (unat ic * INODE_SIZE) BS"
    by linarith
  have i2: "0 < int (unat tb) - int (3 + ceil_div (unat ic * INODE_SIZE) BS)
            \<longleftrightarrow> 3 + ceil_div (unat ic * INODE_SIZE) BS < unat tb"
    by linarith
  show ?thesis
  proof (cases "layout tb ic")
    case (Inl e)
    then have "e = CapacityError" and "unat tb \<le> 3 + (unat ic * 128 + 4095) div 4096"
      using layout_Inl [OF f1, of tb e] by simp_all
    with Inl show ?thesis
      unfolding i1 i2 by (simp add: format_def cd layout_example)
  next
    case (Inr r)
    obtain tbl ds db where r: "r = (tbl, ds, db)" by (cases r) auto
    with Inr have lay: "layout tb ic = Inr (tbl, ds, db)" by simp
    from lay f1 have lt: "3 + (unat ic * 128 + 4095) div 4096 < unat tb"
      and t: "unat tbl = (unat ic * 128 + 4095) div 4096"
      and d: "unat ds = 3 + unat tbl" and b: "unat db = unat tb - unat ds"
      by (simp_all add: layout_Inr)
    obtain img where run: "format tb ic now now' = Some (Inr img)"
      and len: "length img = unat tb * BS"
      using format_image [OF assms lay, of now now'] by auto
    have sb: "superblock_of_bytes (take SB_SIZE img) = new_superblock tb ic tbl ds db now"
      by (rule format_superblock [OF assms lay run])
    show ?thesis
      unfolding i1 i2 using run len lt t d b by (simp add: sb cd layout_example)
  qed
qed

theorem C4_layout_witness:
  "fits 45 128 \<and>
   (\<exists>img sb. format 45 128 0 0 = Some (Inr img) \<and> length img = 45 * BS
      \<and> sb = superblock_of_bytes (take SB_SIZE img)
      \<and> inode_table_blocks sb = 4 \<and> data_region_start sb = 7 \<and> data_region_blocks sb = 38)"
proof -
  have f: "fits 45 128" by (simp add: fits_def)
  have c: "ceil_div (unat (128 :: u64) * INODE_SIZE) BS = 4" by (simp add: ceil_div_def)
  from C4_layout [OF f, of 0 0]
  obtain img sb where "format 45 128 0 0 = Some (Inr img)" "length img = 45 * BS"
    "sb = superblock_of_bytes (take SB_SIZE img)"
    "unat (inode_table_blocks sb) = 4" "unat (data_region_start sb) = 3 + unat (inode_table_blocks sb)"
    "unat (data_region_blocks sb) = 45 - unat (data_region_start sb)"
    unfolding c by auto
  moreover from this have "inode_table_blocks sb = 4" "data_region_start sb = 7"
    "data_region_blocks sb = 38"
    by (simp_all add: word_unat_eq_iff)
  ultimately show ?thesis using f by blast
qed

text \<open>
  Claim C5. For every input the builder accepts, the image it produces has bit 0 and no
  other bit set in the inode bitmap and in the data bitmap; the root inode in table slot 0
  is a directory with link count 2, size 128, the three timestamps equal to the time read
  for it, first direct pointer 0 and a checksum that is the CRC-32 of its first 120 bytes;
  slots 0 and 1 of the first data block hold the entries \<open>.\<close> and \<open>..\<close>, both for inode 1 and
  of type directory, each with its XOR checksum, and the rest of that block is zero.
\<close>

theorem C5_fresh_image:
  assumes "builder_valid size_kib ic"
  shows "\<exists>img. mkfs_builder size_kib ic now now' = Some (Inr img)
       \<and> (\<forall>j < 8 * BS. bit_get img (inode_bm_off (image_sb img)) j = Some (j = 0))
       \<and> (\<forall>j < 8 * BS. bit_get img (data_bm_off (image_sb img)) j = Some (j = 0))
       \<and> inode_tbl_off (image_sb img) = 3 * BS
       \<and> mode (inode_at img 0) = 0x4000 \<and> links (inode_at img 0) = 2
       \<and> size_bytes (inode_at img 0) = 2 * 64
       \<and> atime (inode_at img 0) = now' \<and> mtime (inode_at img 0) = now'
       \<and> ctime (inode_at img 0) = now' \<and> direct (inode_at img 0) ! 0 = 0
       \<and> inode_crc (inode_at img 0) = ucast (crc32 (take 120 (inode_bytes (inode_at img 0))))
       \<and> inode_no (dirent_at img 0 0) = 1 \<and> dtype (dirent_at img 0 0) = 2
       \<and> name (dirent_at img 0 0) = cstring ''.'' @ replicate 57 0
       \<and> dchecksum (dirent_at img 0 0) = xor_sum (take 63 (dirent_bytes (dirent_at img 0 0)))
       \<and> inode_no (dirent_at img 0 1) = 1 \<and> dtype (dirent_at img 0 1) = 2
       \<and> name (dirent_at img 0 1) = cstring ''..'' @ replicate 56 0
       \<and> dchecksum (dirent_at img 0 1) = xor_sum (take 63 (dirent_bytes (dirent_at img 0 1)))
       \<and> (\<forall>a. data_region_off (image_sb img) + 2 * DIRENT_SIZE \<le> a
               \<and> a < data_region_off (image_sb img) + BS \<longrightarrow> img ! a = 0)"
proof -
  from assms obtain img tbl ds db where
    run: "mkfs_builder size_kib ic now now' = Some (Inr img)"
    and fmt: "format (size_kib div 4) ic now now' = Some (Inr img)"
    and fit: "fits (size_kib div 4) ic"
    and lay: "layout (size_kib div 4) ic = Inr (tbl, ds, db)"
    and b: "4 \<le> unat tbl" "unat ic * INODE_SIZE \<le> unat tbl * BS"
      "unat (size_kib div 4) \<le> 1024" "unat ic \<le> 512"
    by (rule builder_image)
  from b have t1: "1 \<le> unat tbl" and b': "unat ic \<le> 8 * BS" "unat (size_kib div 4) \<le> 8 * BS"
    by simp_all
  note f = fresh_image [OF fit lay t1 fmt]
  note g = fresh_geometry [OF fit lay t1 fmt b(2) b']
  note o = geometry_offsets [OF g(1)]
  have r: "inode_at img 0 = root_dir_inode now'" using f(5) by (rule inode_at_fresh_root)
  have d0: "dirent_at img 0 0 = dot_entry ''.''"
    unfolding dirent_at_def g(2) using f(7)
    by (simp add: dirent_of_bytes_inverse dot_entry_fields)
  have d1: "dirent_at img 0 1 = dot_entry ''..''"
    unfolding dirent_at_def g(2) using f(8)
    by (simp add: dirent_of_bytes_inverse dot_entry_fields)
  from d1 have d1': "dirent_at img 0 (Suc 0) = dot_entry ''..''" by simp
  have crc: "inode_crc (root_dir_inode now')
             = ucast (crc32 (take 120 (inode_bytes (root_dir_inode now'))))"
    unfolding root_dir_inode_def by (rule inode_crc_finalize_crc)
  have x: "dchecksum (dot_entry s) = xor_sum (take 63 (dirent_bytes (dot_entry s)))" for s
    unfolding dot_entry_def xor_sum_def by (rule dirent_checksum_finalize_sum)
  have n0: "name (dot_entry ''.'') = cstring ''.'' @ replicate 57 0"
    using dot_entry_name [of "''.''"] by simp
  have n1: "name (dot_entry ''..'') = cstring ''..'' @ replicate 56 0"
    using dot_entry_name [of "''..''"] by simp
  have z: "\<forall>a. data_region_off (image_sb img) + 2 * DIRENT_SIZE \<le> a
               \<and> a < data_region_off (image_sb img) + BS \<longrightarrow> img ! a = 0"
    unfolding g(2) using f(9) by simp
  have bm: "\<forall>j < 8 * BS. bit_get img (inode_bm_off (image_sb img)) j = Some (j = 0)"
    "\<forall>j < 8 * BS. bit_get img (data_bm_off (image_sb img)) j = Some (j = 0)"
    unfolding o using f(3,4) by simp_all
  show ?thesis
    by (rule exI [of _ img])
       (use run bm z o(3) crc x n0 n1 in \<open>simp add: r d0 d1' dot_entry_fields\<close>)
qed

theorem C5_fresh_image_witness:
  "builder_valid 180 128 \<and>
   (\<exists>img. mkfs_builder 180 128 0 1 = Some (Inr img)
      \<and> bit_get img (inode_bm_off (image_sb img)) 0 = Some True
      \<and> bit_get img (inode_bm_off (image_sb img)) 1 = Some False
      \<and> bit_get img (data_bm_off (image_sb img)) 0 = Some True
      \<and> bit_get img (data_bm_off (image_sb img)) 1 = Some False
      \<and> links (inode_at img 0) = 2 \<and> size_bytes (inode_at img 0) = 128
      \<and> mtime (inode_at img 0) = 1
      \<and> img ! (data_region_off (image_sb img) + 128) = 0)"
proof -
  have v: "builder_valid 180 128" by (simp add: builder_valid_def)
  from C5_fresh_image [OF v, of 0 1] obtain img where
    i: "mkfs_builder 180 128 0 1 = Some (Inr img)"
    "\<forall>j < 8 * BS. bit_get img (inode_bm_off (image_sb img)) j = Some (j = 0)"
    "\<forall>j < 8 * BS. bit_get img (data_bm_off (image_sb img)) j = Some (j = 0)"
    "links (inode_at img 0) = 2" "size_bytes (inode_at img 0) = 2 * 64"
    "mtime (inode_at img 0) = 1"
    "\<forall>a. data_region_off (image_sb img) + 2 * DIRENT_SIZE \<le> a
               \<and> a < data_region_off (image_sb img) + BS \<longrightarrow> img ! a = 0"
    by blast
  from i(2) have "bit_get img (inode_bm_off (image_sb img)) 0 = Some True"
    "bit_get img (inode_bm_off (image_sb img)) 1 = Some False" by simp_all
  moreover from i(3) have "bit_get img (data_bm_off (image_sb img)) 0 = Some True"
    "bit_get img (data_bm_off (image_sb img)) 1 = Some False" by simp_all
  moreover from i(7) have "img ! (data_region_off (image_sb img) + 128) = 0" by simp
  ultimately show ?thesis using v i(1,4,5,6) by auto
qed

text \<open>
  Claim C8. After a successful run of the adder on a valid image, the root inode in table
  slot 0 is the old root inode with the link count incremented by 1, the size increased by
  64 and the checksum finalized again (the CRC-32 of its first 120 bytes). On the image
  formatted with 180 KiB (45 blocks) and 128 inodes, adding a 10-byte file named
  \<open>hello.txt\<close> succeeds; the file gets inode number 2 with size 10 and first direct pointer 1,
  the new root directory entry is \<open>{inode_no 2, type 1, name hello.txt}\<close>, and the root inode
  has 3 links and size 192.
\<close>

theorem C8_root_update:
  shows "(valid_image img \<and> add_file img hf fb now now' = Some (Inr img') \<longrightarrow>
            inode_at img' 0
              = inode_crc_finalize
                  ((inode_at img 0)\<lparr> links := links (inode_at img 0) + 1,
                                     size_bytes := size_bytes (inode_at img 0) + 64 \<rparr>)
          \<and> links (inode_at img' 0) = links (inode_at img 0) + 1
          \<and> size_bytes (inode_at img' 0) = size_bytes (inode_at img 0) + 64
          \<and> inode_crc (inode_at img' 0) = ucast (crc32 (take 120 (inode_bytes (inode_at img' 0)))))
       \<and> (mkfs_builder 180 128 t t' = Some (Inr img0) \<and> length fb0 = 10 \<longrightarrow>
            (\<exists>img1. add_file img0 ''hello.txt'' fb0 now now' = Some (Inr img1)
               \<and> size_bytes (inode_at img1 1) = 10 \<and> direct (inode_at img1 1) ! 0 = 1
               \<and> inode_no (dirent_at img1 0 2) = 2 \<and> dtype (dirent_at img1 0 2) = 1
               \<and> name (dirent_at img1 0 2) = cstring ''hello.txt'' @ replicate 49 0
               \<and> links (inode_at img1 0) = 3 \<and> size_bytes (inode_at img1 0) = 192))"
proof (intro conjI impI)
  assume a: "valid_image img \<and> add_file img hf fb now now' = Some (Inr img')"
  then have v: "valid_image img" and run: "add_file img hf fb now now' = Some (Inr img')"
    by simp_all
  from run obtain sb fi bf where plan: "adder_plan img fb = Some (Inr (sb, fi, bf))"
    by (auto elim!: add_file_Inr)
  note r = valid_result [OF v run plan refl refl]
  show b: "inode_at img' 0
              = inode_crc_finalize
                  ((inode_at img 0)\<lparr> links := links (inode_at img 0) + 1,
                                     size_bytes := size_bytes (inode_at img 0) + 64 \<rparr>)"
    using r(6) by (simp add: bump_root_def)
  show "links (inode_at img' 0) = links (inode_at img 0) + 1"
    and "size_bytes (inode_at img' 0) = size_bytes (inode_at img 0) + 64"
    by (simp_all add: r(6))
  show "inode_crc (inode_at img' 0) = ucast (crc32 (take 120 (inode_bytes (inode_at img' 0))))"
    unfolding b by (rule inode_crc_finalize_crc)
next
  assume a: "mkfs_builder 180 128 t t' = Some (Inr img0) \<and> length fb0 = 10"
  then have run0: "mkfs_builder 180 128 t t' = Some (Inr img0)" and l: "length fb0 = 10"
    by simp_all
  from l have small: "length fb0 \<le> DIRECT_MAX * BS" by simp
  have c: "max 1 (ceil_div (length fb0) BS) = 1" by (simp add: l ceil_div_def)
  from first_add [OF run0 small, of "''hello.txt''" now now'] obtain img1 where
    r: "add_file img0 ''hello.txt'' fb0 now now' = Some (Inr img1)"
    "inode_at img1 1 = file_inode (of_nat (length fb0)) now (map of_nat [1..<Suc 1])"
    "dirent_at img1 0 2 = new_dirent 2 ''hello.txt''"
    "inode_at img1 0 = bump_root (root_dir_inode t')"
    unfolding c by blast
  have r49: "(0 :: u8) # replicate 48 0 = replicate 49 0" by code_simp
  have n: "name (new_dirent 2 ''hello.txt'') = cstring ''hello.txt'' @ replicate 49 0"
    by (simp add: new_dirent_fields basename_def cstring_def replicate_append_same r49)
  show "\<exists>img1. add_file img0 ''hello.txt'' fb0 now now' = Some (Inr img1)
               \<and> size_bytes (inode_at img1 1) = 10 \<and> direct (inode_at img1 1) ! 0 = 1
               \<and> inode_no (dirent_at img1 0 2) = 2 \<and> dtype (dirent_at img1 0 2) = 1
               \<and> name (dirent_at img1 0 2) = cstring ''hello.txt'' @ replicate 49 0
               \<and> links (inode_at img1 0) = 3 \<and> size_bytes (inode_at img1 0) = 192"
    by (rule exI [of _ img1]) (use r n l in \<open>simp add: new_dirent_fields(1,2)\<close>)
qed

theorem C8_root_update_witness:
  "\<exists>img0 img1. mkfs_builder 180 128 0 0 = Some (Inr img0) \<and> valid_image img0 \<and>
      add_file img0 ''hello.txt'' (replicate 10 7) 1 1 = Some (Inr img1) \<and>
      links (inode_at img1 0) = links (inode_at img0 0) + 1 \<and>
      size_bytes (inode_at img1 0) = size_bytes (inode_at img0 0) + 64 \<and>
      links (inode_at img1 0) = 3 \<and> size_bytes (inode_at img1 0) = 192"
proof -
  from builder_image [OF builder_valid_180_128, of 0 0] obtain img0 where
    run0: "mkfs_builder 180 128 0 0 = Some (Inr img0)" by (metis (no_types))
  have v: "valid_image img0"
    by (rule fresh_plan(1) [OF builder_valid_180_128 run0, of "[]"]) simp
  have l: "length (replicate 10 (7 :: u8)) = 10" by simp
  from C8_root_update [of img0 "''hello.txt''" "replicate 10 7" 1 1 _ 0 0 img0 "replicate 10 7"]
    run0 l
  obtain img1 where r: "add_file img0 ''hello.txt'' (replicate 10 7) 1 1 = Some (Inr img1)"
    "links (inode_at img1 0) = 3" "size_bytes (inode_at img1 0) = 192"
    by blast
  from C8_root_update [of img0 "''hello.txt''" "replicate 10 7" 1 1 img1] v r(1)
  have "links (inode_at img1 0) = links (inode_at img0 0) + 1"
    "size_bytes (inode_at img1 0) = size_bytes (inode_at img0 0) + 64"
    by blast+
  with run0 v r show ?thesis by blast
qed



text \<open>
  Claim C6. On an image of at least one block with the right magic number, and a file
  smaller than \<open>2^63\<close> bytes (the size is a non-negative \<^verbatim>\<open>off_t\<close>), the adder computes
  \<open>max 1 (ceil (file_size / 4096))\<close> required blocks and fails with \<open>FileTooLarge\<close> exactly
  when this count exceeds 12, that is, exactly when the file has more than \<open>12 \<times> 4096 =
  49152\<close> bytes: a file of 49153 bytes fails with \<open>FileTooLarge\<close> and leaves the buffer as it
  is, and a file of at most 49152 bytes is added to every valid image that has a free
  inode, enough free data blocks and a free slot in the root directory.
\<close>

theorem C6_capacity:
  assumes "BS \<le> length img" "magic (image_sb img) = 0x4D565346" "length fb < 2 ^ 63"
  shows "unat (need_blocks_of (of_nat (length fb))) = max 1 (ceil_div (length fb) BS) \<and>
    ((\<exists>buf. add_file img hf fb now now' = Some (Inl (FileTooLarge, buf)))
       \<longleftrightarrow> DIRECT_MAX < max 1 (ceil_div (length fb) BS)) \<and>
    (DIRECT_MAX < max 1 (ceil_div (length fb) BS) \<longleftrightarrow> DIRECT_MAX * BS < length fb) \<and>
    (length fb = 49153 \<longrightarrow> add_file img hf fb now now' = Some (Inl (FileTooLarge, img))) \<and>
    (length fb \<le> 49152 \<and> valid_image img \<and>
     free_list img BS (unat (inode_count (image_sb img))) \<noteq> [] \<and>
     max 1 (ceil_div (length fb) BS)
       \<le> length (free_list img (2 * BS) (unat (data_region_blocks (image_sb img)))) \<and>
     (\<exists>s < 64. slot_ino img (unat (direct (inode_at img 0) ! 0)) s = 0)
     \<longrightarrow> (\<exists>img'. add_file img hf fb now now' = Some (Inr img')))"
proof -
  define need where "need = max 1 (ceil_div (length fb) BS)"
  note un = unat_need_blocks [OF assms(3), folded need_def]
  have nb: "12 < need_blocks_of (of_nat (length fb)) \<longleftrightarrow> DIRECT_MAX < need"
    unfolding word_less_nat_alt un by simp
  have sb: "superblock_of_bytes (take SB_SIZE img) = image_sb img" by (simp add: image_sb_def)
  have pl: "adder_plan img fb = Some (Inl FileTooLarge) \<longleftrightarrow> DIRECT_MAX < need"
    unfolding adder_plan_FileTooLarge sb nb using assms(1,2) by simp
  have a: "(\<exists>buf. add_file img hf fb now now' = Some (Inl (FileTooLarge, buf)))
       \<longleftrightarrow> DIRECT_MAX < need"
  proof
    assume "\<exists>buf. add_file img hf fb now now' = Some (Inl (FileTooLarge, buf))"
    then obtain buf where "add_file img hf fb now now' = Some (Inl (FileTooLarge, buf))" ..
    from add_file_Inl [OF this] show "DIRECT_MAX < need" using pl by simp
  next
    assume "DIRECT_MAX < need"
    then have "adder_plan img fb = Some (Inl FileTooLarge)" using pl by simp
    from add_file_plan_fail [OF this] show
      "\<exists>buf. add_file img hf fb now now' = Some (Inl (FileTooLarge, buf))" by blast
  qed
  have b: "DIRECT_MAX < need \<longleftrightarrow> DIRECT_MAX * BS < length fb"
    unfolding need_def ceil_div_def by auto
  have c: "add_file img hf fb now now' = Some (Inl (FileTooLarge, img))" if "length fb = 49153"
  proof -
    from that b have "DIRECT_MAX < need" by simp
    then have "adder_plan img fb = Some (Inl FileTooLarge)" using pl by simp
    then show ?thesis by (rule add_file_plan_fail)
  qed
  have d: "\<exists>img'. add_file img hf fb now now' = Some (Inr img')"
    if "length fb \<le> 49152" and v: "valid_image img"
      and "free_list img BS (unat (inode_count (image_sb img))) \<noteq> []"
      and "need \<le> length (free_list img (2 * BS) (unat (data_region_blocks (image_sb img))))"
      and fr: "\<exists>s < 64. slot_ino img (unat (direct (inode_at img 0) ! 0)) s = 0"
  proof -
    from that(1) b have "\<not> DIRECT_MAX < need" by simp
    with that(3,4) sane_plan [OF valid_imageD(7) [OF v] assms(3), folded need_def]
    obtain fi bf where "adder_plan img fb = Some (Inr (image_sb img, fi, bf))" by simp
    from valid_progress [OF v this fr] show ?thesis .
  qed
  show ?thesis
    unfolding need_def [symmetric] using un a b c d by blast
qed

theorem C6_capacity_witness:
  "\<exists>img0. mkfs_builder 180 128 0 0 = Some (Inr img0) \<and>
     (\<exists>img1. add_file img0 ''f'' (replicate 49152 7) 1 1 = Some (Inr img1)) \<and>
     add_file img0 ''f'' (replicate 49153 7) 1 1 = Some (Inl (FileTooLarge, img0))"
proof -
  from builder_image [OF builder_valid_180_128, of 0 0] obtain img0 where
    run0: "mkfs_builder 180 128 0 0 = Some (Inr img0)" by (metis (no_types))
  note i = image_180 [OF run0]
  note vd = valid_imageD [OF i(4)]
  have c: "ceil_div 49152 BS = 12" by (simp add: ceil_div_def)
  have s: "\<exists>s < 64. slot_ino img0 (unat (direct (inode_at img0 0) ! 0)) s = 0"
    using i(11) [of 2] by (intro exI [of _ 2]) (simp add: i(7))
  have "\<exists>img1. add_file img0 ''f'' (replicate 49152 7) 1 1 = Some (Inr img1)"
    using C6_capacity [OF vd(1,2), of "replicate 49152 7" "''f''" 1 1] i(4) s i(5) i(6)
    by (simp add: i(2) c)
  moreover have "add_file img0 ''f'' (replicate 49153 7) 1 1 = Some (Inl (FileTooLarge, img0))"
    using C6_capacity [OF vd(1,2), of "replicate 49153 7" "''f''" 1 1] by simp
  ultimately show ?thesis using run0 by blast
qed

text \<open>
  Claim C7, as the code has it. The scan for free data blocks collects the first
  \<open>max 1 (ceil (file_size / 4096))\<close> clear bits of the data bitmap in strictly ascending
  order. On an image with a sound layout, a file that passes the capacity check (at most
  12 blocks) and finds a free inode, but needs more blocks than are free, makes the adder
  fail with \<open>NoFreeBlocks\<close>, and whenever the adder fails with \<open>NoFreeBlocks\<close> the buffer
  is the input, unchanged. A file of more than 12 blocks fails with \<open>FileTooLarge\<close>
  instead, and an image without a free inode with \<open>NoFreeInode\<close>, whatever the number of free blocks.
\<close>

theorem C7_no_free_blocks:
  assumes "sane_image img" "length fb < 2 ^ 63"
  shows
    "(\<forall>sb fi bf. adder_plan img fb = Some (Inr (sb, fi, bf)) \<longrightarrow>
        map unat bf = take (max 1 (ceil_div (length fb) BS))
                        (free_list img (2 * BS) (unat (data_region_blocks (image_sb img)))) \<and>
        sorted (map unat bf) \<and> distinct (map unat bf)) \<and>
     (max 1 (ceil_div (length fb) BS) \<le> DIRECT_MAX \<and>
      free_list img BS (unat (inode_count (image_sb img))) \<noteq> [] \<and>
      length (free_list img (2 * BS) (unat (data_region_blocks (image_sb img))))
        < max 1 (ceil_div (length fb) BS)
      \<longrightarrow> add_file img hf fb now now' = Some (Inl (NoFreeBlocks, img))) \<and>
     (\<forall>buf. add_file img hf fb now now' = Some (Inl (NoFreeBlocks, buf)) \<longrightarrow>
        buf = img \<and> max 1 (ceil_div (length fb) BS) \<le> DIRECT_MAX \<and>
        free_list img BS (unat (inode_count (image_sb img))) \<noteq> [] \<and>
        length (free_list img (2 * BS) (unat (data_region_blocks (image_sb img))))
          < max 1 (ceil_div (length fb) BS)) \<and>
     (DIRECT_MAX < max 1 (ceil_div (length fb) BS)
      \<longrightarrow> add_file img hf fb now now' = Some (Inl (FileTooLarge, img))) \<and>
     (max 1 (ceil_div (length fb) BS) \<le> DIRECT_MAX \<and>
      free_list img BS (unat (inode_count (image_sb img))) = []
      \<longrightarrow> add_file img hf fb now now' = Some (Inl (NoFreeInode, img)))"
proof -
  define need where "need = max 1 (ceil_div (length fb) BS)"
  define fli where "fli = free_list img BS (unat (inode_count (image_sb img)))"
  define fld where "fld = free_list img (2 * BS) (unat (data_region_blocks (image_sb img)))"
  note sp = sane_plan [OF assms, folded need_def fli_def fld_def]
  note un = unat_need_blocks [OF assms(2), folded need_def]
  have a: "map unat bf = take need fld \<and> sorted (map unat bf) \<and> distinct (map unat bf)"
    if plan: "adder_plan img fb = Some (Inr (sb, fi, bf))" for sb fi bf
  proof -
    note p = adder_plan_valid [OF assms(1) plan]
    have m: "map unat bf = take need fld" using p(5) by (simp add: un fld_def p(1))
    have "sorted (take need fld)" "distinct (take need fld)"
      using sorted_free_list [of img "2 * BS" "unat (data_region_blocks (image_sb img))"]
      by (simp_all add: fld_def sorted_wrt_take)
    with m show ?thesis by simp
  qed
  have b: "add_file img hf fb now now' = Some (Inl (NoFreeBlocks, img))"
    if "need \<le> DIRECT_MAX" "fli \<noteq> []" "length fld < need"
    by (rule add_file_plan_fail) (use sp that in simp)
  have c: "buf = img \<and> need \<le> DIRECT_MAX \<and> fli \<noteq> [] \<and> length fld < need"
    if "add_file img hf fb now now' = Some (Inl (NoFreeBlocks, buf))" for buf
    using add_file_Inl [OF that] sp by (auto split: if_splits)
  have d: "add_file img hf fb now now' = Some (Inl (FileTooLarge, img))" if "DIRECT_MAX < need"
    by (rule add_file_plan_fail) (use sp that in simp)
  have e: "add_file img hf fb now now' = Some (Inl (NoFreeInode, img))"
    if "need \<le> DIRECT_MAX" "fli = []"
    by (rule add_file_plan_fail) (use sp that in simp)
  show ?thesis
    unfolding need_def [symmetric] fli_def [symmetric] fld_def [symmetric]
    using a b c d e by blast
qed

theorem C7_no_free_blocks_witness:
  "\<exists>img0 img. mkfs_builder 180 128 0 0 = Some (Inr img0) \<and>
     memcpy img0 (2 * BS) (replicate 5 255) = Some img \<and>
     add_file img ''f'' [] 1 1 = Some (Inl (NoFreeBlocks, img))"
proof -
  from builder_image [OF builder_valid_180_128, of 0 0] obtain img0 where
    run0: "mkfs_builder 180 128 0 0 = Some (Inr img0)" by (metis (no_types))
  from image_full_bitmap(1) [OF run0] obtain img where
    m: "memcpy img0 (2 * BS) (replicate 5 255) = Some img" ..
  note f = image_full_bitmap(2) [OF run0 m]
  note i = image_180 [OF run0]
  from f have s: "sane_image img" by simp
  have "add_file img ''f'' [] 1 1 = Some (Inl (NoFreeBlocks, img))"
    using C7_no_free_blocks [OF s, of "[]" "''f''" 1 1] f
    by (simp add: i(2) ceil_div_def)
  with run0 m show ?thesis by blast
qed

text \<open>
  A file of 200000 bytes needs 49 blocks, more than the 37 free blocks of the image
  formatted with 180 KiB and 128 inodes: the adder fails with \<open>FileTooLarge\<close>, not with
  \<open>NoFreeBlocks\<close>.
\<close>

theorem C7_counterexample:
  "\<exists>img. mkfs_builder 180 128 0 0 = Some (Inr img) \<and>
     length (free_list img (2 * BS) (unat (data_region_blocks (image_sb img)))) = 37 \<and>
     max 1 (ceil_div (length (replicate 200000 (7 :: u8))) BS) = 49 \<and>
     add_file img ''big'' (replicate 200000 7) 1 1 = Some (Inl (FileTooLarge, img)) \<and>
     (\<forall>buf. add_file img ''big'' (replicate 200000 7) 1 1 \<noteq> Some (Inl (NoFreeBlocks, buf)))"
proof -
  from builder_image [OF builder_valid_180_128, of 0 0] obtain img where
    run0: "mkfs_builder 180 128 0 0 = Some (Inr img)" by (metis (no_types))
  note i = image_180 [OF run0]
  note vd = valid_imageD [OF i(4)]
  have c: "max 1 (ceil_div (length (replicate 200000 (7 :: u8))) BS) = 49"
    by (simp add: ceil_div_def)
  have "adder_plan img (replicate 200000 7) = Some (Inl FileTooLarge)"
    using sane_plan [OF vd(7), of "replicate 200000 7"] unfolding c by simp
  from add_file_plan_fail [OF this, of "''big''" 1 1]
  have "add_file img ''big'' (replicate 200000 7) 1 1 = Some (Inl (FileTooLarge, img))" .
  with run0 c i(6) show ?thesis by (auto simp: i(2))
qed

text \<open>
  Claim C9, as the code has it. The adder copies at most 57 bytes (\<^verbatim>\<open>MAX_FILENAME - 1\<close>) of
  the base name of the host path into the zeroed 58-byte name field. The entry written by
  a successful run on a valid image therefore has a name field of 58 bytes whose last byte
  is always zero: for a base name of at least 57 bytes the field holds its first 57 bytes
  followed by a zero byte, for a shorter one the name followed by zero bytes. The field is
  not length-prefixed; it is never full, so the stored name is always terminated.
\<close>

theorem C9_name_field:
  assumes "valid_image img" "add_file img hf fb now now' = Some (Inr img')"
  shows "\<exists>slot < 64.
           slot_ino img (unat (direct (inode_at img 0) ! 0)) slot = 0 \<and>
           (\<forall>s < slot. slot_ino img (unat (direct (inode_at img 0) ! 0)) s \<noteq> 0) \<and>
           length (name (dirent_at img' (unat (direct (inode_at img 0) ! 0)) slot)) = MAX_FILENAME \<and>
           name (dirent_at img' (unat (direct (inode_at img 0) ! 0)) slot) ! 57 = 0 \<and>
           (57 \<le> length (basename hf) \<longrightarrow>
              name (dirent_at img' (unat (direct (inode_at img 0) ! 0)) slot)
                = take 57 (cstring (basename hf)) @ [0]) \<and>
           (length (basename hf) < MAX_FILENAME \<longrightarrow>
              name (dirent_at img' (unat (direct (inode_at img 0) ! 0)) slot)
                = take 57 (cstring (basename hf)) @ replicate (MAX_FILENAME - min 57 (length (basename hf))) 0)"
proof -
  define rr where "rr = unat (direct (inode_at img 0) ! 0)"
  define b where "b = cstring (basename hf)"
  have lb: "length b = length (basename hf)" by (simp add: b_def cstring_def)
  from assms(2) obtain sb fi bf where plan: "adder_plan img fb = Some (Inr (sb, fi, bf))"
    by (auto elim!: add_file_Inr)
  from valid_result(8) [OF assms plan refl rr_def] obtain slot where
    s: "slot < 64" "slot_ino img rr slot = 0" "\<forall>s < slot. slot_ino img rr s \<noteq> 0"
    "dirent_at img' rr slot = new_dirent (fi + 1) hf"
    by blast
  have n: "name (dirent_at img' rr slot) = take 57 (b @ replicate 57 0) @ [0]"
    unfolding s(4) b_def by (rule new_dirent_fields(4))
  have l: "length (name (dirent_at img' rr slot)) = MAX_FILENAME"
    unfolding s(4) by (rule new_dirent_fields(3))
  have l57: "length (take 57 (b @ replicate 57 (0 :: u8))) = 57" by simp
  have z: "name (dirent_at img' rr slot) ! 57 = 0"
    unfolding n by (metis l57 nth_append_length)
  have long: "name (dirent_at img' rr slot) = take 57 b @ [0]" if "57 \<le> length (basename hf)"
    unfolding n using that lb by simp
  have short: "name (dirent_at img' rr slot)
                 = take 57 b @ replicate (MAX_FILENAME - min 57 (length (basename hf))) 0"
    if "length (basename hf) < MAX_FILENAME"
  proof (cases "57 \<le> length (basename hf)")
    case True
    with that have "length (basename hf) = 57" by simp
    then show ?thesis unfolding n using lb by simp
  next
    case False
    then have e: "MAX_FILENAME - min 57 (length (basename hf)) = Suc (57 - length b)"
      using lb by simp
    show ?thesis unfolding n e using False lb by (simp add: replicate_append_same)
  qed
  show ?thesis
    unfolding rr_def [symmetric] b_def [symmetric]
    using s(1,2,3) l z long short by blast
qed

theorem C9_name_field_witness:
  "\<exists>img0 img1. mkfs_builder 180 128 0 0 = Some (Inr img0) \<and> valid_image img0 \<and>
      add_file img0 ''dir/hello.txt'' (replicate 10 7) 1 1 = Some (Inr img1) \<and>
      (\<exists>slot < 64. name (dirent_at img1 0 slot) = cstring ''hello.txt'' @ replicate 49 0)"
proof -
  from builder_image [OF builder_valid_180_128, of 0 0] obtain img0 where
    run0: "mkfs_builder 180 128 0 0 = Some (Inr img0)" by (metis (no_types))
  note f = fresh_plan [OF builder_valid_180_128 run0, of "[]"]
  have v: "valid_image img0" using f(1) by simp
  have rr: "unat (direct (inode_at img0 0) ! 0) = 0" by (simp add: f(9))
  have "length (replicate 10 (7 :: u8)) \<le> DIRECT_MAX * BS" by simp
  from first_add [OF run0 this, of "''dir/hello.txt''" 1 1] obtain img1 where
    run: "add_file img0 ''dir/hello.txt'' (replicate 10 7) 1 1 = Some (Inr img1)" by blast
  have bn: "basename ''dir/hello.txt'' = ''hello.txt''" by (simp add: basename_def)
  have r49: "replicate 49 (0 :: u8) = 0 # replicate 48 0" by code_simp
  from C9_name_field [OF v run, unfolded rr bn]
  have "\<exists>slot < 64. name (dirent_at img1 0 slot) = cstring ''hello.txt'' @ replicate 49 0"
    by (auto simp: cstring_def r49)
  with run0 v run show ?thesis by blast
qed

text \<open>
  A name of 58 letters \<open>a\<close>: the stored name field is 57 letters followed by a zero byte,
  not the first 58 bytes of the name.
\<close>

theorem C9_counterexample:
  "\<exists>img0 img1. mkfs_builder 180 128 0 0 = Some (Inr img0) \<and>
      add_file img0 (replicate 58 CHR ''a'') (replicate 10 7) 1 1 = Some (Inr img1) \<and>
      inode_no (dirent_at img1 0 2) = 2 \<and>
      name (dirent_at img1 0 2) = replicate 57 97 @ [0] \<and>
      name (dirent_at img1 0 2) \<noteq> take 58 (cstring (replicate 58 CHR ''a''))"
proof -
  from builder_image [OF builder_valid_180_128, of 0 0] obtain img0 where
    run0: "mkfs_builder 180 128 0 0 = Some (Inr img0)" by (metis (no_types))
  have "length (replicate 10 (7 :: u8)) \<le> DIRECT_MAX * BS" by simp
  from first_add [OF run0 this, of "replicate 58 CHR ''a''" 1 1] obtain img1 where
    run: "add_file img0 (replicate 58 CHR ''a'') (replicate 10 7) 1 1 = Some (Inr img1)"
    and d: "dirent_at img1 0 2 = new_dirent 2 (replicate 58 CHR ''a'')" by blast
  have bn: "basename (replicate 58 CHR ''a'') = replicate 58 CHR ''a''"
    by (simp add: basename_def)
  have c: "cstring (replicate 58 CHR ''a'') = replicate 58 97"
    by (simp add: cstring_def)
  have n: "name (dirent_at img1 0 2) = replicate 57 97 @ [0]"
    unfolding d new_dirent_fields(4) bn c by simp
  have "(replicate 57 97 @ [0 :: u8]) ! 57 \<noteq> replicate 58 97 ! 57"
    by (simp add: nth_append)
  then have "replicate 57 97 @ [0 :: u8] \<noteq> take 58 (replicate 58 97)" by auto
  with run0 run d n show ?thesis by (auto simp: c new_dirent_fields(1))
qed





end
